theory Spec2Isabelle
  imports Main "HOL-Library.Word"
begin

unbundle bit_operations_syntax

section \<open>Preliminaries\<close>

text \<open>
  Everything that aborts the C++ program (a failed \<open>assert\<close>, a null or dangling pointer,
  a read past the end of a vector) is a value of \<open>error\<close>; \<open>OutOfFuel\<close> is the one
  error that is not the program's own: it marks a recursion deeper than the fuel given.
\<close>

datatype error =
    OutOfFuel
  | AssertFailed
  | NullDeref
  | BadPointer
  | BadRef
  | ReadPastEnd

definition bindE :: "error + 'a \<Rightarrow> ('a \<Rightarrow> error + 'b) \<Rightarrow> error + 'b" where
  "bindE m f = (case m of Inl e \<Rightarrow> Inl e | Inr x \<Rightarrow> f x)"

text \<open>A loop whose body may fail and which threads a state through its iterations.\<close>

primrec foldE :: "('a \<Rightarrow> 's \<Rightarrow> error + 's) \<Rightarrow> 'a list \<Rightarrow> 's \<Rightarrow> error + 's" where
  "foldE f [] s = Inr s"
| "foldE f (x # xs) s = bindE (f x s) (foldE f xs)"

abbreviation nl :: char where
  "nl \<equiv> CHR 0x0A"

section \<open>Object model\<close>

text \<open>
  A \<open>PDFObject *\<close> is the index of the object in \<open>Context::objectList\<close>, the vector
  that owns every object the builder creates. A \<open>PDFIdentifier\<close> is the address of a
  CoreGraphics object, array, dictionary or stream.
\<close>

type_synonym ptr = nat
type_synonym PDFIdentifier = nat
type_synonym byte = "8 word"
type_synonym float = "32 word"

datatype type_t =
    type_invalid
  | type_boolean
  | type_number
  | type_string
  | type_name
  | type_array
  | type_dict
  | type_stream
  | type_null

text \<open>
  \<open>CGPDFDataFormat\<close> is the enumeration of the CoreGraphics header, the three
  storage-encoding tags a stream's data can have.
\<close>

datatype CGPDFDataFormat =
    CGPDFDataFormatRaw
  | CGPDFDataFormatJPEGEncoded
  | CGPDFDataFormatJPEG2000

text \<open>\<open>PDFNumber\<close>: the flag \<open>_isInt\<close> and the union of an \<open>int\<close> and a \<open>float\<close>.\<close>

datatype PDFNumber = IntNumber int | FloatNumber float

text \<open>
  \<open>PDFDictionary\<close>: \<open>_value\<close> is a \<open>std::map\<close> from keys to object pointers,
  kept here as an association list that is only read with \<open>map_of\<close> and only extended
  for a key it does not hold yet (what \<open>std::map::insert\<close> does); \<open>_order\<close> is the
  vector of keys in insertion order.
\<close>

record PDFDictionary =
  dvalue :: "(string \<times> ptr) list"
  dorder :: "string list"

record PDFStream =
  sdict :: PDFDictionary
  sdata :: "byte list"
  sformat :: CGPDFDataFormat
  outputAsText :: bool

datatype PDFValue =
    BooleanObj bool
  | NumberObj PDFNumber
  | StringObj string
  | NameObj string
  | ArrayObj "ptr list"
  | DictObj PDFDictionary
  | StreamObj PDFStream
  | NullObj

text \<open>
  \<open>PDFObject\<close>: the fields of the base class (\<open>_refCount\<close>, \<open>_id\<close>) and the
  fields of the subclass; \<open>_type\<close> is fixed by the subclass's constructor and is read
  off the subclass.
\<close>

record PDFObject =
  refCount :: nat
  objID :: int
  val :: PDFValue

fun type_of_value :: "PDFValue \<Rightarrow> type_t" where
  "type_of_value (BooleanObj _) = type_boolean"
| "type_of_value (NumberObj _) = type_number"
| "type_of_value (StringObj _) = type_string"
| "type_of_value (NameObj _) = type_name"
| "type_of_value (ArrayObj _) = type_array"
| "type_of_value (DictObj _) = type_dict"
| "type_of_value (StreamObj _) = type_stream"
| "type_of_value NullObj = type_null"

definition type :: "PDFObject \<Rightarrow> type_t" where
  "type obj = type_of_value (val obj)"

definition isBoolean :: "PDFObject \<Rightarrow> bool" where
  "isBoolean obj = (type obj = type_boolean)"

definition isNumber :: "PDFObject \<Rightarrow> bool" where
  "isNumber obj = (type obj = type_number)"

definition isString :: "PDFObject \<Rightarrow> bool" where
  "isString obj = (type obj = type_string)"

definition isName :: "PDFObject \<Rightarrow> bool" where
  "isName obj = (type obj = type_name)"

definition isArray :: "PDFObject \<Rightarrow> bool" where
  "isArray obj = (type obj = type_array)"

definition isDictionary :: "PDFObject \<Rightarrow> bool" where
  "isDictionary obj = (type obj = type_dict)"

definition isStream :: "PDFObject \<Rightarrow> bool" where
  "isStream obj = (type obj = type_stream)"

definition isNull :: "PDFObject \<Rightarrow> bool" where
  "isNull obj = (type obj = type_null)"

text \<open>The checked downcasts: \<open>None\<close> is the null pointer.\<close>

definition asNumber :: "PDFObject \<Rightarrow> PDFNumber option" where
  "asNumber obj = (case val obj of NumberObj n \<Rightarrow> Some n | _ \<Rightarrow> None)"

definition asName :: "PDFObject \<Rightarrow> string option" where
  "asName obj = (case val obj of NameObj n \<Rightarrow> Some n | _ \<Rightarrow> None)"

definition asDictionary :: "PDFObject \<Rightarrow> PDFDictionary option" where
  "asDictionary obj = (case val obj of DictObj d \<Rightarrow> Some d | _ \<Rightarrow> None)"

definition asStream :: "PDFObject \<Rightarrow> PDFStream option" where
  "asStream obj = (case val obj of StreamObj s \<Rightarrow> Some s | _ \<Rightarrow> None)"

definition inc :: "PDFObject \<Rightarrow> PDFObject" where
  "inc obj = obj\<lparr>refCount := refCount obj + 1\<rparr>"

definition indirect :: "PDFObject \<Rightarrow> bool" where
  "indirect obj = (refCount obj > 1 \<or> isStream obj \<or> isDictionary obj)"

definition setID :: "int \<Rightarrow> PDFObject \<Rightarrow> PDFObject" where
  "setID i obj = obj\<lparr>objID := i\<rparr>"

definition getID :: "PDFObject \<Rightarrow> int" where
  "getID obj = objID obj"

text \<open>The constructor of the base class: one reference, no identifier.\<close>

definition newObject :: "PDFValue \<Rightarrow> PDFObject" where
  "newObject v = \<lparr>refCount = 1, objID = 0, val = v\<rparr>"

subsection \<open>Dictionaries\<close>

definition emptyDictionary :: PDFDictionary where
  "emptyDictionary = \<lparr>dvalue = [], dorder = []\<rparr>"

definition count :: "PDFDictionary \<Rightarrow> nat" where
  "count d = length (dorder d)"

text \<open>\<open>PDFDictionary::value( const std::string & )\<close>: the pointer stored, or null.\<close>

definition valueOf :: "PDFDictionary \<Rightarrow> string \<Rightarrow> ptr option" where
  "valueOf d i_key = map_of (dvalue d) i_key"

text \<open>
  \<open>PDFDictionary::value( size_t, std::string & )\<close>: the result is the pointer returned
  and the content of \<open>o_key\<close> afterwards, which the early return leaves as it was.
  \<open>_order[i_index]\<close> with \<open>i_index\<close> equal to the size of the vector reads past its
  end.
\<close>

definition valueAt :: "PDFDictionary \<Rightarrow> nat \<Rightarrow> string \<Rightarrow> error + (ptr option \<times> string)" where
  "valueAt d i_index o_key =
     (if i_index > count d then Inr (None, o_key)
      else if i_index < length (dorder d)
        then Inr (valueOf d (dorder d ! i_index), dorder d ! i_index)
        else Inl ReadPastEnd)"

definition addValue :: "string \<Rightarrow> ptr \<Rightarrow> PDFDictionary \<Rightarrow> PDFDictionary" where
  "addValue i_key i_obj d =
     \<lparr>dvalue = (case map_of (dvalue d) i_key of
                  None \<Rightarrow> dvalue d @ [(i_key, i_obj)]
                | Some _ \<Rightarrow> dvalue d),
      dorder = dorder d @ [i_key]\<rparr>"

section \<open>Text and stream data\<close>

primrec make_writable :: "string \<Rightarrow> string" where
  "make_writable [] = []"
| "make_writable (it # i_s) =
     (if it = CHR '' '' then ''#20'' else [it]) @ make_writable i_s"

text \<open>
  The two digits of one byte, as the loop body of \<open>convertData\<close> computes them:
  \<open>a\<close> and \<open>b\<close> are \<open>int\<close>s, the characters are \<open>'A' + a - 10\<close> or \<open>'0' + a\<close>.
\<close>

definition hexChar :: "int \<Rightarrow> char" where
  "hexChar a = (if a \<ge> 10 then char_of (65 + a - 10) else char_of (48 + a))"

definition hexDigits :: "byte \<Rightarrow> string" where
  "hexDigits x =
     (let a = uint (drop_bit 4 (x AND 0xF0));
          b = uint (x AND 0x0F)
      in [hexChar a, hexChar b])"

text \<open>
  The loop of \<open>convertData\<close>: \<open>i\<close> is the index of the next byte, \<open>ostr\<close> what has
  been written to the string stream.
\<close>

function convertLoop :: "byte list \<Rightarrow> nat \<Rightarrow> string \<Rightarrow> string" where
  "convertLoop ptr i ostr =
     (if i < length ptr
      then (let ostr' = ostr @ hexDigits (ptr ! i);
                i' = i + 1
            in convertLoop ptr i' (if i' mod 40 = 0 then ostr' @ [nl] else ostr'))
      else ostr)"
  by pat_completeness auto
termination
  by (relation "measure (\<lambda>(ptr, i, ostr). length ptr - i)") auto

declare convertLoop.simps [simp del]

text \<open>\<open>ConvData\<close> is a buffer and its size; the model keeps the bytes, as characters.\<close>

definition chars_of_bytes :: "byte list \<Rightarrow> string" where
  "chars_of_bytes bs = map (\<lambda>b. char_of (uint b)) bs"

definition convertData :: "byte list \<Rightarrow> bool \<Rightarrow> string" where
  "convertData data doASCII =
     (if \<not> doASCII then chars_of_bytes data
      else convertLoop data 0 [] @ [nl])"

subsection \<open>Numbers on an output stream\<close>

text \<open>\<open>operator<<\<close> for unsigned and signed integers: decimal digits, a sign if negative.\<close>

function showNat :: "nat \<Rightarrow> string" where
  "showNat n =
     (if n < 10 then [char_of (48 + n)]
      else showNat (n div 10) @ [char_of (48 + n mod 10)])"
  by pat_completeness auto
termination
  by (relation "measure id") auto

declare showNat.simps [simp del]

definition showInt :: "int \<Rightarrow> string" where
  "showInt i = (if i < 0 then CHR ''-'' # showNat (nat (- i)) else showNat (nat i))"

text \<open>\<open>std::setfill( '0' ) << std::setw( 10 )\<close> before an unsigned integer.\<close>

definition showPadded10 :: "nat \<Rightarrow> string" where
  "showPadded10 n = replicate (10 - length (showNat n)) (CHR ''0'') @ showNat n"

text \<open>
  What the program takes from the C++ implementation. For \<open>float\<close>: the narrowing of a
  \<open>CGPDFReal\<close>, the conversion to \<open>int\<close>, and \<open>operator<<\<close>. For the output
  stream: \<open>tellp\<close>, as a function of what has been written to the stream. A stream
  that can seek reports the number of characters written; \<open>std::cout\<close>, which \<open>main\<close>
  passes, reports \<open>-1\<close> at all times when its buffer cannot seek, and then every
  difference of two positions is 0. They are parameters of the model.
\<close>

record Platform =
  toFloat :: "64 word \<Rightarrow> float"
  floatToInt :: "float \<Rightarrow> int"
  showFloat :: "float \<Rightarrow> string"
  tellp :: "string \<Rightarrow> int"

definition isInt :: "PDFNumber \<Rightarrow> bool" where
  "isInt num = (case num of IntNumber _ \<Rightarrow> True | FloatNumber _ \<Rightarrow> False)"

definition intValue :: "Platform \<Rightarrow> PDFNumber \<Rightarrow> int" where
  "intValue P num = (case num of IntNumber i \<Rightarrow> i | FloatNumber f \<Rightarrow> floatToInt P f)"

section \<open>The source document\<close>

text \<open>
  The CoreGraphics reader, as far as the program uses it: a \<open>CGPDFObjectRef\<close> has a
  type and a value, where the value of an array, dictionary or stream object is a
  reference of its own; a dictionary enumerates its keys in a fixed order; a stream has
  a dictionary, data and a format. References are addresses, and a reference that
  designates nothing is \<open>None\<close> in the maps below.
\<close>

datatype CGPDFObject =
    CGNull
  | CGBoolean bool
  | CGInteger int
  | CGReal "64 word"
  | CGName string
  | CGString string
  | CGArray PDFIdentifier
  | CGDictionary PDFIdentifier
  | CGStream PDFIdentifier

record CGPDFStream =
  streamDictionary :: PDFIdentifier
  streamData :: "byte list"
  streamFormat :: CGPDFDataFormat

record CGPDFDocument =
  objectAt :: "PDFIdentifier \<rightharpoonup> CGPDFObject"
  arrayAt :: "PDFIdentifier \<rightharpoonup> PDFIdentifier list"
  dictionaryAt :: "PDFIdentifier \<rightharpoonup> (string \<times> PDFIdentifier) list"
  streamAt :: "PDFIdentifier \<rightharpoonup> CGPDFStream"

text \<open>\<open>IDRef( CGPDFObjectRef )\<close>; the other three overloads are casts.\<close>

definition IDRef :: "CGPDFDocument \<Rightarrow> PDFIdentifier \<Rightarrow> error + PDFIdentifier" where
  "IDRef D obj =
     (case objectAt D obj of
        None \<Rightarrow> Inl BadRef
      | Some (CGArray v) \<Rightarrow> Inr v
      | Some (CGDictionary v) \<Rightarrow> Inr v
      | Some (CGStream v) \<Rightarrow> Inr v
      | Some _ \<Rightarrow> Inr obj)"

section \<open>Graph builder\<close>

record Context =
  objectList :: "PDFObject list"
  visited :: "PDFIdentifier \<rightharpoonup> ptr"

definition emptyContext :: Context where
  "emptyContext = \<lparr>objectList = [], visited = Map.empty\<rparr>"

text \<open>\<open>visit->second->inc()\<close>\<close>

definition incAt :: "ptr \<Rightarrow> Context \<Rightarrow> error + Context" where
  "incAt p ctx =
     (if p < length (objectList ctx)
      then Inr (ctx\<lparr>objectList := (objectList ctx)[p := inc (objectList ctx ! p)]\<rparr>)
      else Inl BadPointer)"

text \<open>
  \<open>ctx.visited.insert( std::make_pair( id, p.get() ) ); ctx.objectList.push_back( std::move( p ) )\<close>
  for a new object \<open>p\<close>: \<open>insert\<close> keeps an entry that is there already, and the pointer
  to the new object is the index it gets in the list.
\<close>

definition insertAndPush :: "PDFIdentifier \<Rightarrow> PDFValue \<Rightarrow> Context \<Rightarrow> Context" where
  "insertAndPush i v ctx =
     \<lparr>objectList = objectList ctx @ [newObject v],
      visited = (case visited ctx i of
                   None \<Rightarrow> (visited ctx)(i \<mapsto> length (objectList ctx))
                 | Some _ \<Rightarrow> visited ctx)\<rparr>"

definition VisitNull :: "CGPDFDocument \<Rightarrow> PDFIdentifier \<Rightarrow> Context \<Rightarrow> error + Context" where
  "VisitNull D obj ctx =
     bindE (IDRef D obj) (\<lambda>i.
       case visited ctx i of
         Some p \<Rightarrow> incAt p ctx
       | None \<Rightarrow> Inr (insertAndPush i NullObj ctx))"

text \<open>\<open>(int)v\<close> for a \<open>CGPDFInteger\<close> \<open>v\<close> keeps the low 32 bits, read as signed.\<close>

definition VisitInteger :: "CGPDFDocument \<Rightarrow> PDFIdentifier \<Rightarrow> Context \<Rightarrow> error + Context" where
  "VisitInteger D obj ctx =
     bindE (IDRef D obj) (\<lambda>i.
       case visited ctx i of
         Some p \<Rightarrow> incAt p ctx
       | None \<Rightarrow>
           (case objectAt D obj of
              Some (CGInteger v) \<Rightarrow>
                Inr (insertAndPush i (NumberObj (IntNumber (sint (word_of_int v :: 32 word)))) ctx)
            | _ \<Rightarrow> Inl AssertFailed))"

definition VisitFloat ::
  "Platform \<Rightarrow> CGPDFDocument \<Rightarrow> PDFIdentifier \<Rightarrow> Context \<Rightarrow> error + Context" where
  "VisitFloat P D obj ctx =
     bindE (IDRef D obj) (\<lambda>i.
       case visited ctx i of
         Some p \<Rightarrow> incAt p ctx
       | None \<Rightarrow>
           (case objectAt D obj of
              Some (CGReal v) \<Rightarrow>
                Inr (insertAndPush i (NumberObj (FloatNumber (toFloat P v))) ctx)
            | _ \<Rightarrow> Inl AssertFailed))"

definition VisitName :: "CGPDFDocument \<Rightarrow> PDFIdentifier \<Rightarrow> Context \<Rightarrow> error + Context" where
  "VisitName D obj ctx =
     bindE (IDRef D obj) (\<lambda>i.
       case visited ctx i of
         Some p \<Rightarrow> incAt p ctx
       | None \<Rightarrow>
           (case objectAt D obj of
              Some (CGName v) \<Rightarrow> Inr (insertAndPush i (NameObj v) ctx)
            | _ \<Rightarrow> Inl AssertFailed))"

definition VisitString :: "CGPDFDocument \<Rightarrow> PDFIdentifier \<Rightarrow> Context \<Rightarrow> error + Context" where
  "VisitString D obj ctx =
     bindE (IDRef D obj) (\<lambda>i.
       case visited ctx i of
         Some p \<Rightarrow> incAt p ctx
       | None \<Rightarrow>
           (case objectAt D obj of
              Some (CGString v) \<Rightarrow> Inr (insertAndPush i (StringObj v) ctx)
            | _ \<Rightarrow> Inl AssertFailed))"

definition VisitBoolean :: "CGPDFDocument \<Rightarrow> PDFIdentifier \<Rightarrow> Context \<Rightarrow> error + Context" where
  "VisitBoolean D obj ctx =
     bindE (IDRef D obj) (\<lambda>i.
       case visited ctx i of
         Some p \<Rightarrow> incAt p ctx
       | None \<Rightarrow>
           (case objectAt D obj of
              Some (CGBoolean b) \<Rightarrow> Inr (insertAndPush i (BooleanObj b) ctx)
            | _ \<Rightarrow> Inl AssertFailed))"

text \<open>
  \<open>auto found = ctx.visited.find( IDRef( value ) ); assert( found != ctx.visited.end() )\<close>
\<close>

definition findVisited :: "CGPDFDocument \<Rightarrow> PDFIdentifier \<Rightarrow> Context \<Rightarrow> error + ptr" where
  "findVisited D v ctx =
     bindE (IDRef D v) (\<lambda>i.
       case visited ctx i of
         None \<Rightarrow> Inl AssertFailed
       | Some found \<Rightarrow> Inr found)"

text \<open>\<open>ptr->addValue( found->second )\<close> and \<open>ptr->addValue( it, found->second )\<close>\<close>

definition addValueArrayAt :: "ptr \<Rightarrow> ptr \<Rightarrow> Context \<Rightarrow> error + Context" where
  "addValueArrayAt p i_obj ctx =
     (if p < length (objectList ctx)
      then (case val (objectList ctx ! p) of
              ArrayObj xs \<Rightarrow>
                Inr (ctx\<lparr>objectList :=
                  (objectList ctx)[p := (objectList ctx ! p)\<lparr>val := ArrayObj (xs @ [i_obj])\<rparr>]\<rparr>)
            | _ \<Rightarrow> Inl BadPointer)
      else Inl BadPointer)"

definition addValueDictAt :: "ptr \<Rightarrow> string \<Rightarrow> ptr \<Rightarrow> Context \<Rightarrow> error + Context" where
  "addValueDictAt p i_key i_obj ctx =
     (if p < length (objectList ctx)
      then (case val (objectList ctx ! p) of
              DictObj d \<Rightarrow>
                Inr (ctx\<lparr>objectList :=
                  (objectList ctx)[p := (objectList ctx ! p)\<lparr>val := DictObj (addValue i_key i_obj d)\<rparr>]\<rparr>)
            | _ \<Rightarrow> Inl BadPointer)
      else Inl BadPointer)"

text \<open>
  The four functions \<open>VisitObject\<close>, \<open>VisitDict\<close>, \<open>VisitStream\<close> and \<open>VisitArray\<close>
  call each other. \<open>VisitObject\<close> is defined by recursion on a bound on the depth of
  its calls, and the other three take the \<open>VisitObject\<close> they call as the argument
  \<open>visit\<close>.

  \<open>VisitDict\<close>: the keys are those \<open>CGPDFDictionaryApplyFunction\<close> enumerates;
  \<open>CGPDFDictionaryGetObject\<close> looks a key up and skips one it does not find.
\<close>

definition VisitDict ::
  "(PDFIdentifier \<Rightarrow> Context \<Rightarrow> error + Context) \<Rightarrow> CGPDFDocument \<Rightarrow> PDFIdentifier \<Rightarrow>
     Context \<Rightarrow> error + (ptr \<times> Context)" where
  "VisitDict visit D dict ctx =
     (case visited ctx dict of
        Some p \<Rightarrow> bindE (incAt p ctx) (\<lambda>ctx'. Inr (p, ctx'))
      | None \<Rightarrow>
          (case dictionaryAt D dict of
             None \<Rightarrow> Inl BadRef
           | Some kvs \<Rightarrow>
               (let keys = map fst kvs;
                    ptr = length (objectList ctx);
                    ctx1 = insertAndPush dict (DictObj emptyDictionary) ctx
                in bindE
                     (foldE (\<lambda>it c.
                        case map_of kvs it of
                          None \<Rightarrow> Inr c
                        | Some v \<Rightarrow>
                            bindE (visit v c) (\<lambda>c'.
                            bindE (findVisited D v c') (\<lambda>found.
                            addValueDictAt ptr it found c')))
                        keys ctx1)
                     (\<lambda>c. Inr (ptr, c)))))"

text \<open>
  \<open>VisitStream\<close>: the parameter dictionary is built in the local \<open>newDict\<close>; the stream
  is created, entered in \<open>visited\<close> and appended to the list after the loop.
\<close>

definition VisitStream ::
  "(PDFIdentifier \<Rightarrow> Context \<Rightarrow> error + Context) \<Rightarrow> CGPDFDocument \<Rightarrow> PDFIdentifier \<Rightarrow>
     Context \<Rightarrow> error + Context" where
  "VisitStream visit D stream ctx =
     (case visited ctx stream of
        Some p \<Rightarrow> incAt p ctx
      | None \<Rightarrow>
          (case streamAt D stream of
             None \<Rightarrow> Inl BadRef
           | Some st \<Rightarrow>
               (case dictionaryAt D (streamDictionary st) of
                  None \<Rightarrow> Inl BadRef
                | Some kvs \<Rightarrow>
                    bindE
                      (foldE (\<lambda>it (c, newDict).
                         case map_of kvs it of
                           None \<Rightarrow> Inr (c, newDict)
                         | Some v \<Rightarrow>
                             bindE (visit v c) (\<lambda>c'.
                             bindE (findVisited D v c') (\<lambda>found.
                             Inr (c', addValue it found newDict))))
                         (map fst kvs) (ctx, emptyDictionary))
                      (\<lambda>(c, newDict).
                         Inr (insertAndPush stream
                                (StreamObj \<lparr>sdict = newDict, sdata = streamData st,
                                            sformat = streamFormat st, outputAsText = False\<rparr>)
                                c)))))"

text \<open>
  \<open>VisitArray\<close>: \<open>CGPDFArrayGetObject\<close> gives the element at every index below the
  count.
\<close>

definition VisitArray ::
  "(PDFIdentifier \<Rightarrow> Context \<Rightarrow> error + Context) \<Rightarrow> CGPDFDocument \<Rightarrow> PDFIdentifier \<Rightarrow>
     Context \<Rightarrow> error + Context" where
  "VisitArray visit D array ctx =
     (case visited ctx array of
        Some p \<Rightarrow> incAt p ctx
      | None \<Rightarrow>
          (case arrayAt D array of
             None \<Rightarrow> Inl BadRef
           | Some elems \<Rightarrow>
               (let ptr = length (objectList ctx);
                    ctx1 = insertAndPush array (ArrayObj []) ctx
                in foldE (\<lambda>i c.
                     bindE (visit (elems ! i) c) (\<lambda>c'.
                     bindE (findVisited D (elems ! i) c') (\<lambda>found.
                     addValueArrayAt ptr found c')))
                     [0..<length elems] ctx1)))"

primrec VisitObject ::
  "nat \<Rightarrow> Platform \<Rightarrow> CGPDFDocument \<Rightarrow> PDFIdentifier \<Rightarrow> Context \<Rightarrow> error + Context" where
  "VisitObject 0 P D obj ctx = Inl OutOfFuel"
| "VisitObject (Suc n) P D obj ctx =
     bindE (IDRef D obj) (\<lambda>i.
       case visited ctx i of
         Some p \<Rightarrow> incAt p ctx
       | None \<Rightarrow>
           (case objectAt D obj of
              None \<Rightarrow> Inl BadRef
            | Some CGNull \<Rightarrow> VisitNull D obj ctx
            | Some (CGBoolean _) \<Rightarrow> VisitBoolean D obj ctx
            | Some (CGInteger _) \<Rightarrow> VisitInteger D obj ctx
            | Some (CGReal _) \<Rightarrow> VisitFloat P D obj ctx
            | Some (CGName _) \<Rightarrow> VisitName D obj ctx
            | Some (CGString _) \<Rightarrow> VisitString D obj ctx
            | Some (CGArray v) \<Rightarrow> VisitArray (VisitObject n P D) D v ctx
            | Some (CGDictionary v) \<Rightarrow>
                bindE (VisitDict (VisitObject n P D) D v ctx) (\<lambda>(p, ctx'). Inr ctx')
            | Some (CGStream v) \<Rightarrow> VisitStream (VisitObject n P D) D v ctx))"

text \<open>
  The part of \<open>main\<close> that builds the graph of one document: the catalog, then the info
  dictionary, on one context, and \<open>ctx.visited.clear()\<close>. \<open>n\<close> bounds the depth of
  the calls of \<open>VisitObject\<close>.
\<close>

definition buildGraph ::
  "nat \<Rightarrow> Platform \<Rightarrow> CGPDFDocument \<Rightarrow> PDFIdentifier \<Rightarrow> PDFIdentifier \<Rightarrow>
     error + (ptr \<times> ptr \<times> Context)" where
  "buildGraph n P D catalog info =
     bindE (VisitDict (VisitObject n P D) D catalog emptyContext) (\<lambda>(rootObj, ctx1).
     bindE (VisitDict (VisitObject n P D) D info ctx1) (\<lambda>(infoObj, ctx2).
     Inr (rootObj, infoObj, ctx2\<lparr>visited := Map.empty\<rparr>)))"

section \<open>Serializer\<close>

text \<open>
  An output stream only grows, so \<open>WriteObject\<close> is the string it appends to the stream
  it is given; \<open>SavePDF\<close>, which reads \<open>tellp\<close>, carries the content of the stream.

  A loop that appends the output of its body for each index, in turn.
\<close>

primrec loopE :: "(nat \<Rightarrow> error + string) \<Rightarrow> nat list \<Rightarrow> error + string" where
  "loopE f [] = Inr []"
| "loopE f (i # is) = bindE (f i) (\<lambda>a. bindE (loopE f is) (\<lambda>b. Inr (a @ b)))"

text \<open>
  What the array and the dictionary cases do with a child \<open>o\<close> (here \<open>child\<close>):
  \<open>if ( o->indirect() ) s << o->getID() << " 0 R" << sep; else { WriteObject( s, o ); s << sep; }\<close>
  where \<open>sep\<close> is a space in an array and a line break in a dictionary.
\<close>

definition writeChild ::
  "(ptr \<Rightarrow> error + string) \<Rightarrow> PDFObject list \<Rightarrow> ptr option \<Rightarrow> string \<Rightarrow> error + string" where
  "writeChild write objs child sep =
     (case child of
        None \<Rightarrow> Inl NullDeref
      | Some p \<Rightarrow>
          if p < length objs
          then (if indirect (objs ! p)
                then Inr (showInt (getID (objs ! p)) @ '' 0 R'' @ sep)
                else bindE (write p) (\<lambda>w. Inr (w @ sep)))
          else Inl BadPointer)"

definition writeArrayElement ::
  "(ptr \<Rightarrow> error + string) \<Rightarrow> PDFObject list \<Rightarrow> ptr list \<Rightarrow> nat \<Rightarrow> error + string" where
  "writeArrayElement write objs xs i = writeChild write objs (Some (xs ! i)) '' ''"

definition writeDictEntry ::
  "(ptr \<Rightarrow> error + string) \<Rightarrow> PDFObject list \<Rightarrow> PDFDictionary \<Rightarrow> nat \<Rightarrow> error + string" where
  "writeDictEntry write objs dict i =
     bindE (valueAt dict i []) (\<lambda>(child, name).
     bindE (writeChild write objs child [nl]) (\<lambda>w.
     Inr (''/'' @ name @ '' '' @ w)))"

definition writeStreamEntry ::
  "(ptr \<Rightarrow> error + string) \<Rightarrow> PDFObject list \<Rightarrow> PDFDictionary \<Rightarrow> nat \<Rightarrow> nat \<Rightarrow>
     error + string" where
  "writeStreamEntry write objs dict sz i =
     bindE (valueAt dict i []) (\<lambda>(child, name).
       if name = ''Filter'' then Inr []
       else if name = ''Length'' then Inr (''/Length '' @ showNat sz @ [nl])
       else bindE (writeChild write objs child [nl]) (\<lambda>w.
            Inr (''/'' @ name @ '' '' @ w)))"

text \<open>The value of \<open>doASCII\<close> in the stream case.\<close>

definition streamDoASCII :: "PDFObject list \<Rightarrow> PDFStream \<Rightarrow> error + bool" where
  "streamDoASCII objs st =
     (case valueOf (sdict st) ''Type'' of
        None \<Rightarrow> Inr (\<not> outputAsText st)
      | Some t \<Rightarrow>
          if t < length objs
          then (if type (objs ! t) = type_name \<and> asName (objs ! t) = Some ''Metadata''
                then Inr False
                else Inr (\<not> outputAsText st))
          else Inl BadPointer)"

definition filterLine :: "bool \<Rightarrow> CGPDFDataFormat \<Rightarrow> string" where
  "filterLine doASCII format =
     (if doASCII
      then (if format = CGPDFDataFormatJPEGEncoded
            then ''/Filter [/ASCIIHexDecode /DCTDecode]'' @ [nl]
            else if format = CGPDFDataFormatJPEG2000
            then ''/Filter [/ASCIIHexDecode /JPXDecode]'' @ [nl]
            else ''/Filter /ASCIIHexDecode'' @ [nl])
      else [])"

definition writeStream ::
  "(ptr \<Rightarrow> error + string) \<Rightarrow> PDFObject list \<Rightarrow> PDFStream \<Rightarrow> error + string" where
  "writeStream write objs st =
     bindE (streamDoASCII objs st) (\<lambda>doASCII.
       let dict = sdict st;
           convData = convertData (sdata st) doASCII
       in bindE (loopE (writeStreamEntry write objs dict (length convData)) [0..<count dict])
            (\<lambda>w. Inr (''<<'' @ [nl] @ filterLine doASCII (sformat st) @ w
                       @ ''>>'' @ [nl] @ ''stream'' @ [nl]
                       @ convData
                       @ [nl] @ ''endstream'')))"

primrec WriteObject :: "nat \<Rightarrow> Platform \<Rightarrow> PDFObject list \<Rightarrow> ptr \<Rightarrow> error + string" where
  "WriteObject 0 P objs obj = Inl OutOfFuel"
| "WriteObject (Suc n) P objs obj =
     (if obj < length objs
      then (case val (objs ! obj) of
              BooleanObj b \<Rightarrow> Inr (if b then ''true '' else ''false '')
            | NumberObj num \<Rightarrow>
                Inr (case num of IntNumber i \<Rightarrow> showInt i | FloatNumber f \<Rightarrow> showFloat P f)
            | StringObj v \<Rightarrow> Inr (''('' @ v @ '')'')
            | NameObj v \<Rightarrow> Inr (''/'' @ make_writable v)
            | ArrayObj xs \<Rightarrow>
                bindE (loopE (writeArrayElement (WriteObject n P objs) objs xs) [0..<length xs])
                  (\<lambda>w. Inr (''[ '' @ w @ '']''))
            | DictObj dict \<Rightarrow>
                bindE (loopE (writeDictEntry (WriteObject n P objs) objs dict) [0..<count dict])
                  (\<lambda>w. Inr (''<<'' @ [nl] @ w @ ''>>''))
            | StreamObj st \<Rightarrow> writeStream (WriteObject n P objs) objs st
            | NullObj \<Rightarrow> Inr ''null'')
      else Inl BadPointer)"

subsection \<open>SavePDF\<close>

text \<open>The first loop: \<open>i\<close> is the last identifier given.\<close>

primrec setIDs :: "int \<Rightarrow> PDFObject list \<Rightarrow> PDFObject list" where
  "setIDs i [] = []"
| "setIDs i (it # rest) =
     (if indirect it then setID (i + 1) it # setIDs (i + 1) rest
      else it # setIDs i rest)"

text \<open>
  The body of the second loop, for the object at index \<open>it\<close>: it sets \<open>outputAsText\<close>
  of the stream a page's \<open>Contents\<close> points to, or of the stream itself.
\<close>

definition setOutputAsText :: "ptr \<Rightarrow> PDFObject list \<Rightarrow> PDFObject list" where
  "setOutputAsText p objs =
     (case val (objs ! p) of
        StreamObj st \<Rightarrow> objs[p := (objs ! p)\<lparr>val := StreamObj (st\<lparr>outputAsText := True\<rparr>)\<rparr>]
      | _ \<Rightarrow> objs)"

definition locateContents :: "Platform \<Rightarrow> nat \<Rightarrow> PDFObject list \<Rightarrow> error + PDFObject list" where
  "locateContents P it objs =
     (case val (objs ! it) of
        DictObj dict \<Rightarrow>
          (case valueOf dict ''Type'' of
             None \<Rightarrow> Inr objs
           | Some obj \<Rightarrow>
               if obj < length objs
               then (case asName (objs ! obj) of
                       None \<Rightarrow> Inr objs
                     | Some t \<Rightarrow>
                         if t = ''Page''
                         then (case valueOf dict ''Contents'' of
                                 None \<Rightarrow> Inr objs
                               | Some c \<Rightarrow>
                                   if c < length objs
                                   then Inr (setOutputAsText c objs)
                                   else Inl BadPointer)
                         else Inr objs)
               else Inl BadPointer)
      | StreamObj st \<Rightarrow>
          (case valueOf (sdict st) ''FunctionType'' of
             None \<Rightarrow> Inr objs
           | Some obj \<Rightarrow>
               if obj < length objs
               then (case asNumber (objs ! obj) of
                       None \<Rightarrow> Inr objs
                     | Some num \<Rightarrow>
                         if intValue P num = 4 then Inr (setOutputAsText it objs)
                         else Inr objs)
               else Inl BadPointer)
      | _ \<Rightarrow> Inr objs)"

text \<open>
  \<open>xref\<close> is a \<open>std::map<int, size_t>\<close>: an association list that \<open>insert\<close> extends only
  for a new key, so that its length is \<open>xref.size()\<close>.
\<close>

definition xrefInsert :: "int \<Rightarrow> nat \<Rightarrow> (int \<times> nat) list \<Rightarrow> (int \<times> nat) list" where
  "xrefInsert k off xref =
     (case map_of xref k of None \<Rightarrow> xref @ [(k, off)] | Some _ \<Rightarrow> xref)"

text \<open>
  The third loop, for the object at index \<open>current\<close>; the state is the stream and
  \<open>xref\<close>, and \<open>start\<close> is what \<open>tellp\<close> gave when \<open>SavePDF\<close> was called.
  \<open>s.tellp() - start\<close> is a signed offset, which the map holds as a \<open>size_t\<close>.
\<close>

definition writeBodyObject ::
  "nat \<Rightarrow> Platform \<Rightarrow> PDFObject list \<Rightarrow> int \<Rightarrow> nat \<Rightarrow> string \<times> (int \<times> nat) list \<Rightarrow>
     error + (string \<times> (int \<times> nat) list)" where
  "writeBodyObject n P objs start current = (\<lambda>(s, xref).
     if indirect (objs ! current)
     then bindE (WriteObject n P objs current) (\<lambda>w.
            Inr (s @ showInt (getID (objs ! current)) @ '' 0 obj'' @ [nl]
                   @ w @ [nl] @ ''endobj'' @ [nl],
                 xrefInsert (getID (objs ! current)) (nat ((tellp P s - start) mod 2 ^ 64)) xref))
     else Inr (s, xref))"

text \<open>
  The fourth loop writes \<open>xref[i]\<close> for \<open>i\<close> from 1 to \<open>xref.size()\<close>. The identifiers
  are the keys of \<open>xref\<close>; a key that is missing is an error of the model.
\<close>

definition writeXrefEntry :: "(int \<times> nat) list \<Rightarrow> nat \<Rightarrow> error + string" where
  "writeXrefEntry xref i =
     (case map_of xref (int i) of
        None \<Rightarrow> Inl AssertFailed
      | Some off \<Rightarrow> Inr (showPadded10 off @ '' '' @ ''00000 n '' @ [nl]))"

definition SavePDF ::
  "nat \<Rightarrow> Platform \<Rightarrow> string \<Rightarrow> int \<Rightarrow> int \<Rightarrow> PDFObject list \<Rightarrow> ptr \<Rightarrow> ptr \<Rightarrow>
     error + (string \<times> PDFObject list)" where
  "SavePDF n P s0 majorVersion minorVersion objectList0 i_root i_info =
     (let objs1 = setIDs 0 objectList0
      in bindE (foldE (locateContents P) [0..<length objs1] objs1) (\<lambda>objs.
         let start = tellp P s0;
             s1 = s0 @ ''%PDF-'' @ showInt majorVersion @ ''.'' @ showInt minorVersion @ [nl]
                     @ ''%...'' @ [nl]
         in bindE (foldE (writeBodyObject n P objs start) [0..<length objs] (s1, []))
              (\<lambda>(s2, xref).
         let startXref = tellp P s2;
             s3 = s2 @ ''xref'' @ [nl]
                     @ ''0 '' @ showNat (length xref) @ [nl]
                     @ ''0000000000 00000 n '' @ [nl]
         in bindE (loopE (writeXrefEntry xref) [1..<length xref + 1]) (\<lambda>entries.
         if i_root < length objs \<and> i_info < length objs
         then Inr (s3 @ entries
                     @ ''trailer'' @ [nl]
                     @ ''<< /Size '' @ showNat (length xref)
                     @ '' /Root '' @ showInt (getID (objs ! i_root))
                     @ '' 0 R /Info '' @ showInt (getID (objs ! i_info)) @ '' 0 R>>'' @ [nl]
                     @ ''startxref'' @ [nl]
                     @ showInt (startXref - start) @ [nl]
                     @ ''%%EOF'' @ [nl],
                   objs)
         else Inl BadPointer))))"

section \<open>Reference definitions\<close>

text \<open>
  Hex armouring as the specification words it: every byte as two uppercase hexadecimal
  digits, a line break after every \<open>k\<close> characters of output, and a line break after
  the whole payload. \<open>armorFrom\<close> is the loop of \<open>convertData\<close> as a recursion on the
  bytes that are left, used to relate the two.
\<close>

definition hexPair :: "byte \<Rightarrow> string" where
  "hexPair x = [''0123456789ABCDEF'' ! (unat x div 16), ''0123456789ABCDEF'' ! (unat x mod 16)]"

function breakEvery :: "nat \<Rightarrow> string \<Rightarrow> string" where
  "breakEvery k cs =
     (if k = 0 \<or> length cs < k then cs
      else take k cs @ [nl] @ breakEvery k (drop k cs))"
  by pat_completeness auto
termination
  by (relation "measure (\<lambda>(k, cs). length cs)") auto

declare breakEvery.simps [simp del]

definition hexArmor :: "nat \<Rightarrow> byte list \<Rightarrow> string" where
  "hexArmor k data = breakEvery k (concat (map hexPair data)) @ [nl]"

primrec armorFrom :: "nat \<Rightarrow> byte list \<Rightarrow> string" where
  "armorFrom i [] = []"
| "armorFrom i (x # xs) =
     hexDigits x @ (if Suc i mod 40 = 0 then [nl] else []) @ armorFrom (Suc i) xs"

section \<open>Example documents\<close>

text \<open>
  A catalog (dictionary 100) whose entry \<open>S\<close> is the object 1, a stream (50) whose
  parameter dictionary (60) has the entry \<open>Self\<close> that is the object 1 again; and the
  same document with a dictionary (50) in the place of the stream.
\<close>

definition cyclicStreamDocument :: CGPDFDocument where
  "cyclicStreamDocument =
     \<lparr>objectAt = [1 \<mapsto> CGStream 50],
      arrayAt = Map.empty,
      dictionaryAt = [100 \<mapsto> [(''S'', 1)], 60 \<mapsto> [(''Self'', 1)]],
      streamAt = [50 \<mapsto> \<lparr>streamDictionary = 60, streamData = [],
                             streamFormat = CGPDFDataFormatRaw\<rparr>]\<rparr>"

definition cyclicDictDocument :: CGPDFDocument where
  "cyclicDictDocument =
     \<lparr>objectAt = [1 \<mapsto> CGDictionary 50],
      arrayAt = Map.empty,
      dictionaryAt = [100 \<mapsto> [(''S'', 1)], 50 \<mapsto> [(''Self'', 1)]],
      streamAt = Map.empty\<rparr>"

section \<open>Example objects\<close>

text \<open>
  A platform whose output stream is \<open>std::cout\<close> with a \<open>tellp\<close> that fails, as
  \<open>main\<close> has it; a stream whose parameter dictionary has the keys \<open>Length\<close>, \<open>Filter\<close>
  and \<open>A B\<close>, a stream whose parameter dictionary is empty, and a dictionary whose key
  and whose value, a name, both hold a space.
\<close>

definition examplePlatform :: Platform where
  "examplePlatform = \<lparr>toFloat = (\<lambda>_. 0), floatToInt = (\<lambda>_. 0), showFloat = (\<lambda>_. ''0''),
                       tellp = (\<lambda>_. - 1)\<rparr>"

definition exampleStream :: PDFStream where
  "exampleStream =
     \<lparr>sdict = \<lparr>dvalue = [(''Length'', 1), (''Filter'', 1), (''A B'', 1)],
                dorder = [''Length'', ''Filter'', ''A B'']\<rparr>,
      sdata = [0xAB], sformat = CGPDFDataFormatJPEGEncoded, outputAsText = False\<rparr>"

definition exampleStreamObjects :: "PDFObject list" where
  "exampleStreamObjects = [newObject (StreamObj exampleStream), newObject (NumberObj (IntNumber 7))]"

definition bareStream :: PDFStream where
  "bareStream = \<lparr>sdict = emptyDictionary, sdata = [0xAB], sformat = CGPDFDataFormatRaw,
                 outputAsText = False\<rparr>"


text \<open>Two empty dictionaries, as the builder makes them for an empty catalog and info.\<close>

definition twoDictionaries :: "PDFObject list" where
  "twoDictionaries = [newObject (DictObj emptyDictionary), newObject (DictObj emptyDictionary)]"

text \<open>
  Four streams with the data \<open>AB\<close>: one whose \<open>Type\<close> is the name \<open>Metadata\<close>, one
  with \<open>outputAsText\<close> set, and two with neither, of JPEG 2000 data and of raw data;
  then the name and a number that their entries point to.
\<close>

definition policyObjects :: "PDFObject list" where
  "policyObjects =
     [newObject (StreamObj \<lparr>sdict = \<lparr>dvalue = [(''Type'', 4), (''Length'', 5)],
                                       dorder = [''Type'', ''Length'']\<rparr>,
                             sdata = [0x41, 0x42], sformat = CGPDFDataFormatJPEGEncoded,
                             outputAsText = False\<rparr>),
      newObject (StreamObj \<lparr>sdict = \<lparr>dvalue = [(''Length'', 5)], dorder = [''Length'']\<rparr>,
                             sdata = [0x41, 0x42], sformat = CGPDFDataFormatRaw,
                             outputAsText = True\<rparr>),
      newObject (StreamObj \<lparr>sdict = \<lparr>dvalue = [(''Length'', 5)], dorder = [''Length'']\<rparr>,
                             sdata = [0x41, 0x42], sformat = CGPDFDataFormatJPEG2000,
                             outputAsText = False\<rparr>),
      newObject (StreamObj \<lparr>sdict = \<lparr>dvalue = [(''Length'', 5)], dorder = [''Length'']\<rparr>,
                             sdata = [0x41, 0x42], sformat = CGPDFDataFormatRaw,
                             outputAsText = False\<rparr>),
      newObject (NameObj ''Metadata''),
      newObject (NumberObj (IntNumber 7))]"

section \<open>Invariants of the builder\<close>

text \<open>
  \<open>nameOnly D i s\<close>: the identity \<open>i\<close> is that of a name object with the value \<open>s\<close>
  and of no array, dictionary or stream. \<open>buildInv\<close> is what holds of every context the
  builder reaches from the empty one: the pointers in \<open>visited\<close> are valid, every object
  has a reference count of at least 1 and no identifier, and the node of a name object
  is a name with its value. \<open>extends c c'\<close>: the context \<open>c'\<close> has the objects of \<open>c\<close>
  with their values and with reference counts no smaller, and the entries of its
  \<open>visited\<close>.
\<close>

definition nameOnly :: "CGPDFDocument \<Rightarrow> PDFIdentifier \<Rightarrow> string \<Rightarrow> bool" where
  "nameOnly D i s \<longleftrightarrow>
     objectAt D i = Some (CGName s) \<and> arrayAt D i = None \<and> dictionaryAt D i = None
     \<and> streamAt D i = None"

definition buildInv :: "CGPDFDocument \<Rightarrow> Context \<Rightarrow> bool" where
  "buildInv D c \<longleftrightarrow>
     (\<forall>i q. visited c i = Some q \<longrightarrow> q < length (objectList c))
     \<and> (\<forall>q < length (objectList c). 1 \<le> refCount (objectList c ! q) \<and> objID (objectList c ! q) = 0)
     \<and> (\<forall>i q s. visited c i = Some q \<longrightarrow> nameOnly D i s \<longrightarrow> val (objectList c ! q) = NameObj s)"

definition extends :: "Context \<Rightarrow> Context \<Rightarrow> bool" where
  "extends c c' \<longleftrightarrow>
     length (objectList c) \<le> length (objectList c')
     \<and> (\<forall>q < length (objectList c).
            val (objectList c' ! q) = val (objectList c ! q)
          \<and> refCount (objectList c ! q) \<le> refCount (objectList c' ! q))
     \<and> (\<forall>i q. visited c i = Some q \<longrightarrow> visited c' i = Some q)"

subsection \<open>Entries that share a child\<close>







subsection \<open>Counting references\<close>






subsection \<open>Example documents with a shared name\<close>






section \<open>Basic facts\<close>

lemma bindE_simps [simp]:
  "bindE (Inl e) f = Inl e"
  "bindE (Inr x) f = f x"
  by (simp_all add: bindE_def)

section \<open>Indirection\<close>

text \<open>
  C2. A node is indirect exactly when its reference count is greater than 1, or it is a
  dictionary, or it is a stream; so a dictionary or stream with a single reference is
  indirect.
\<close>

theorem indirect_iff:
  "(indirect obj \<longleftrightarrow> refCount obj > 1 \<or> type obj = type_dict \<or> type obj = type_stream)
   \<and> indirect (newObject (DictObj d)) \<and> indirect (newObject (StreamObj st))"
  by (auto simp: indirect_def isStream_def isDictionary_def type_def newObject_def)

section \<open>The indexed accessor of a dictionary\<close>

text \<open>
  C9. \<open>value( i, key )\<close> returns null for an index greater than the key count, and at
  the key count itself it reads \<open>_order\<close> past its end.
\<close>

theorem valueAt_at_count:
  "valueAt d (count d) k = Inl ReadPastEnd \<and> valueAt d (count d + 1 + j) k = Inr (None, k)"
  by (simp add: valueAt_def count_def)

section \<open>Hex armouring\<close>

lemma hexChar_table: "0 \<le> a \<Longrightarrow> a < 16 \<Longrightarrow> hexChar a = ''0123456789ABCDEF'' ! nat a"
proof -
  assume "0 \<le> a" "a < 16"
  then have "a = 0 \<or> a = 1 \<or> a = 2 \<or> a = 3 \<or> a = 4 \<or> a = 5 \<or> a = 6 \<or> a = 7 \<or> a = 8
     \<or> a = 9 \<or> a = 10 \<or> a = 11 \<or> a = 12 \<or> a = 13 \<or> a = 14 \<or> a = 15" by arith
  then show ?thesis
    by (elim disjE) (simp_all add: hexChar_def char_of_def)
qed

lemma lo_nibble: "uint (x AND 0x0F :: byte) = uint x mod 16"
proof -
  have "(0x0F :: byte) = mask 4" by (simp add: mask_eq_exp_minus_1)
  then have "x AND 0x0F = take_bit 4 x" by (simp add: take_bit_eq_mask)
  then show ?thesis by (simp add: take_bit_eq_mod uint_mod_distrib)
qed

lemma hi_nibble: "uint (drop_bit 4 (x AND 0xF0 :: byte)) = uint x div 16"
proof -
  have "drop_bit 4 (x AND 0xF0 :: byte) = drop_bit 4 x AND drop_bit 4 0xF0"
    by (rule bit_word_eqI) (simp add: bit_simps)
  also have "drop_bit 4 (0xF0 :: byte) = 0x0F" by (simp add: drop_bit_eq_div)
  finally have e: "uint (drop_bit 4 (x AND 0xF0 :: byte)) = uint (drop_bit 4 x) mod 16"
    by (simp add: lo_nibble)
  have "uint x < 256" using uint_bounded[of x] by simp
  then have "uint x div 16 < 16" by simp
  moreover have "0 \<le> uint x div 16" by (simp add: pos_imp_zdiv_nonneg_iff)
  ultimately have "uint x div 16 mod 16 = uint x div 16" by (rule_tac mod_pos_pos_trivial)
  with e show ?thesis by (simp add: drop_bit_eq_div uint_div_distrib)
qed

lemma hexDigits_hexPair: "hexDigits x = hexPair x"
proof -
  have b: "uint x < 256" using uint_bounded[of x] by simp
  have 1: "nat (uint x div 16) = unat x div 16" using nat_div_distrib[of "uint x" 16] by simp
  have 2: "nat (uint x mod 16) = unat x mod 16" using nat_mod_distrib[of "uint x" 16] by simp
  have 3: "uint x div 16 < 16" using b by simp
  have 4: "0 \<le> uint x div 16" by (simp add: pos_imp_zdiv_nonneg_iff)
  have 5: "uint x mod 16 < 16" "0 \<le> uint x mod 16" by simp_all
  have "hexChar (uint x div 16) = ''0123456789ABCDEF'' ! (unat x div 16)"
    using hexChar_table[OF 4 3] 1 by simp
  moreover have "hexChar (uint x mod 16) = ''0123456789ABCDEF'' ! (unat x mod 16)"
    using hexChar_table[OF 5(2) 5(1)] 2 by simp
  ultimately show ?thesis
    unfolding hexDigits_def hexPair_def Let_def hi_nibble lo_nibble by simp
qed

lemma armorFrom_append:
  "armorFrom i (xs @ ys) = armorFrom i xs @ armorFrom (i + length xs) ys"
  by (induction xs arbitrary: i) simp_all

lemma armorFrom_short:
  "i mod 40 + length bs < 40 \<Longrightarrow> armorFrom i bs = concat (map hexDigits bs)"
proof (induction bs arbitrary: i)
  case Nil
  then show ?case by simp
next
  case (Cons x xs)
  from Cons.prems have lt: "Suc (i mod 40) < 40" by simp
  then have m: "Suc i mod 40 = Suc (i mod 40)" by (simp add: mod_Suc)
  with Cons.prems have "Suc i mod 40 + length xs < 40" by simp
  from Cons.IH[OF this] m show ?case by simp
qed

lemma armorFrom_line:
  "i mod 40 + length bs = 40 \<Longrightarrow> bs \<noteq> [] \<Longrightarrow>
     armorFrom i bs = concat (map hexDigits bs) @ [nl]"
proof (induction bs arbitrary: i)
  case Nil
  then show ?case by simp
next
  case (Cons x xs)
  show ?case
  proof (cases xs)
    case Nil
    with Cons.prems have "i mod 40 = 39" by simp
    then have "Suc i mod 40 = 0" by (simp add: mod_Suc)
    with Nil show ?thesis by simp
  next
    case (Cons y ys)
    with Cons.prems have lt: "Suc (i mod 40) < 40" by simp
    then have m: "Suc i mod 40 = Suc (i mod 40)" by (simp add: mod_Suc)
    with Cons.prems have "Suc i mod 40 + length xs = 40" by simp
    from Cons.IH[OF this] m Cons show ?thesis by simp
  qed
qed

lemma length_hex: "length (concat (map hexDigits bs)) = 2 * length bs"
  by (induction bs) (simp_all add: hexDigits_def Let_def)

lemma take_hex: "take (2 * n) (concat (map hexDigits bs)) = concat (map hexDigits (take n bs))"
proof (induction bs arbitrary: n)
  case Nil
  then show ?case by simp
next
  case (Cons x xs)
  show ?case
  proof (cases n)
    case 0
    then show ?thesis by simp
  next
    case (Suc m)
    have l: "length (hexDigits x) = 2" by (simp add: hexDigits_def Let_def)
    from Suc Cons.IH[of m] l show ?thesis by simp
  qed
qed

lemma drop_hex: "drop (2 * n) (concat (map hexDigits bs)) = concat (map hexDigits (drop n bs))"
proof (induction bs arbitrary: n)
  case Nil
  then show ?case by simp
next
  case (Cons x xs)
  show ?case
  proof (cases n)
    case 0
    then show ?thesis by simp
  next
    case (Suc m)
    have l: "length (hexDigits x) = 2" by (simp add: hexDigits_def Let_def)
    from Suc Cons.IH[of m] l show ?thesis by simp
  qed
qed

lemma armorFrom_breakEvery:
  "i mod 40 = 0 \<Longrightarrow> armorFrom i bs = breakEvery 80 (concat (map hexDigits bs))"
proof (induction "length bs" arbitrary: i bs rule: less_induct)
  case less
  show ?case
  proof (cases "length bs < 40")
    case True
    with less.prems have "armorFrom i bs = concat (map hexDigits bs)"
      by (simp add: armorFrom_short)
    moreover from True have "breakEvery 80 (concat (map hexDigits bs)) = concat (map hexDigits bs)"
      by (subst breakEvery.simps) (simp add: length_hex)
    ultimately show ?thesis by simp
  next
    case False
    let ?a = "take 40 bs" and ?b = "drop 40 bs"
    from False have la: "length ?a = 40" by simp
    then have ne: "?a \<noteq> []" by auto
    have "armorFrom i bs = armorFrom i (?a @ ?b)" by simp
    also have "\<dots> = armorFrom i ?a @ armorFrom (i + 40) ?b"
      using la by (simp only: armorFrom_append)
    also have "armorFrom i ?a = concat (map hexDigits ?a) @ [nl]"
      using less.prems la ne by (intro armorFrom_line) simp_all
    also have "armorFrom (i + 40) ?b = breakEvery 80 (concat (map hexDigits ?b))"
      using less.prems False by (intro less.hyps) simp_all
    finally have l: "armorFrom i bs =
       concat (map hexDigits ?a) @ [nl] @ breakEvery 80 (concat (map hexDigits ?b))" by simp
    have "breakEvery 80 (concat (map hexDigits bs)) =
       take 80 (concat (map hexDigits bs)) @ [nl] @ breakEvery 80 (drop 80 (concat (map hexDigits bs)))"
      using False by (subst breakEvery.simps) (simp add: length_hex)
    also have "take 80 (concat (map hexDigits bs)) = concat (map hexDigits ?a)"
      using take_hex[of 40 bs] by simp
    also have "drop 80 (concat (map hexDigits bs)) = concat (map hexDigits ?b)"
      using drop_hex[of 40 bs] by simp
    finally show ?thesis using l by simp
  qed
qed

lemma convertLoop_armorFrom:
  "convertLoop ptr i ostr = ostr @ armorFrom i (drop i ptr)"
proof (induction ptr i ostr rule: convertLoop.induct)
  case (1 ptr i ostr)
  show ?case
  proof (cases "i < length ptr")
    case True
    then have d: "drop i ptr = ptr ! i # drop (Suc i) ptr" by (simp add: Cons_nth_drop_Suc)
    from True 1[OF True refl refl] d show ?thesis
      by (subst convertLoop.simps) (simp add: Let_def)
  next
    case False
    then show ?thesis by (subst convertLoop.simps) simp
  qed
qed

lemma length_breakEvery_short: "length cs < k \<Longrightarrow> breakEvery k cs = cs"
  by (subst breakEvery.simps) simp

text \<open>
  C5, as amended. In hex-armour mode every byte is written as two uppercase hexadecimal
  digits, a line break follows every 40 bytes, that is every 80 characters of digits, and
  a line break follows the whole payload.
\<close>

theorem convertData_hexArmor_80: "convertData data True = hexArmor 80 data"
proof -
  have "hexDigits = hexPair" by (rule ext) (rule hexDigits_hexPair)
  then show ?thesis
    by (simp add: convertData_def hexArmor_def convertLoop_armorFrom armorFrom_breakEvery)
qed

text \<open>
  C5 as stated, with a line break after every 40 characters (20 bytes), fails for 20
  bytes: the program writes 40 digits and one line break, not two.
\<close>

theorem convertData_not_hexArmor_40:
  "convertData (replicate 20 0) True \<noteq> hexArmor 40 (replicate 20 0)"
proof -
  have l: "length (concat (map hexPair (replicate 20 0))) = 40"
    by (simp add: hexPair_def length_concat sum_list_replicate)
  have "convertLoop (replicate 20 0) 0 [] = concat (map hexPair (replicate 20 0))"
    using l hexDigits_hexPair
    by (simp add: convertLoop_armorFrom armorFrom_breakEvery length_breakEvery_short)
  then have "length (convertData (replicate 20 0) True) = 41"
    using l by (simp add: convertData_def)
  moreover have "breakEvery 40 (concat (map hexPair (replicate 20 0)))
      = take 40 (concat (map hexPair (replicate 20 0))) @ [nl]
        @ breakEvery 40 (drop 40 (concat (map hexPair (replicate 20 0))))"
    using l by (subst breakEvery.simps) simp
  then have "length (hexArmor 40 (replicate 20 0)) = 42"
    using l by (simp add: hexArmor_def length_breakEvery_short)
  ultimately show ?thesis by auto
qed

section \<open>Identifier assignment\<close>

lemma indirect_setID: "indirect (setID k ob) = indirect ob"
  by (simp add: indirect_def setID_def isStream_def isDictionary_def type_def)

lemma getID_setID: "getID (setID k ob) = k"
  by (simp add: getID_def setID_def)

lemma setIDs_indirect: "map indirect (setIDs i objs) = map indirect objs"
  by (induction objs arbitrary: i) (simp_all add: indirect_setID)


lemma setIDs_inline: "filter (\<lambda>ob. \<not> indirect ob) (setIDs i objs) = filter (\<lambda>ob. \<not> indirect ob) objs"
  by (induction objs arbitrary: i) (simp_all add: indirect_setID)

lemma upt_shift: "map (\<lambda>k. i + int k) [Suc a..<Suc b] = map (\<lambda>k. i + 1 + int k) [a..<b]"
proof -
  have "[Suc a..<Suc b] = map Suc [a..<b]" by (simp add: map_Suc_upt)
  then show ?thesis by (simp add: comp_def add.assoc)
qed

lemma setIDs_ids:
  "map getID (filter indirect (setIDs i objs))
     = map (\<lambda>k. i + int k) [1..<Suc (length (filter indirect objs))]"
proof (induction objs arbitrary: i)
  case Nil
  then show ?case by simp
next
  case (Cons it rest)
  show ?case
  proof (cases "indirect it")
    case True
    let ?K = "length (filter indirect rest)"
    have "[1..<Suc (Suc ?K)] = 1 # [Suc 1..<Suc (Suc ?K)]"
      by (rule upt_conv_Cons) simp
    then have "map (\<lambda>k. i + int k) [1..<Suc (Suc ?K)]
        = (i + 1) # map (\<lambda>k. i + 1 + int k) [1..<Suc ?K]"
      using upt_shift[of i 1 "Suc ?K"] by simp
    with True Cons.IH[of "i + 1"] show ?thesis
      by (simp add: indirect_setID getID_setID)
  next
    case False
    with Cons.IH[of i] show ?thesis by simp
  qed
qed

text \<open>
  C3. After the first loop of \<open>SavePDF\<close> the identifiers of the indirect nodes, read in
  list order, are 1, 2, ..., K, where K is the number of indirect nodes; the pass changes
  no node's classification and leaves every node that is not indirect as it was, so
  without an identifier when it had none (the constructor sets \<open>_id\<close> to 0).
\<close>

theorem setIDs_dense:
  "map getID (filter indirect (setIDs 0 objs)) = map int [1..<Suc (length (filter indirect objs))]
   \<and> map indirect (setIDs 0 objs) = map indirect objs
   \<and> filter (\<lambda>ob. \<not> indirect ob) (setIDs 0 objs) = filter (\<lambda>ob. \<not> indirect ob) objs
   \<and> ((\<forall>ob \<in> set objs. getID ob = 0) \<longrightarrow>
        (\<forall>ob \<in> set (setIDs 0 objs). \<not> indirect ob \<longrightarrow> getID ob = 0))"
proof -
  have "\<And>ob. ob \<in> set (setIDs 0 objs) \<Longrightarrow> \<not> indirect ob \<Longrightarrow> ob \<in> set objs"
  proof -
    fix ob assume "ob \<in> set (setIDs 0 objs)" "\<not> indirect ob"
    then have "ob \<in> set (filter (\<lambda>ob. \<not> indirect ob) (setIDs 0 objs))" by simp
    then show "ob \<in> set objs" by (simp add: setIDs_inline)
  qed
  then show ?thesis
    using setIDs_ids[of 0 objs] by (auto simp: setIDs_indirect setIDs_inline)
qed

theorem setIDs_dense_witness:
  "map getID [newObject (DictObj emptyDictionary), newObject NullObj,
              inc (newObject (NameObj ''N''))] = [0, 0, 0]
   \<and> map indirect (setIDs 0 [newObject (DictObj emptyDictionary), newObject NullObj,
              inc (newObject (NameObj ''N''))]) = [True, False, True]
   \<and> map getID (setIDs 0 [newObject (DictObj emptyDictionary), newObject NullObj,
              inc (newObject (NameObj ''N''))]) = [1, 0, 2]"
  using setIDs_dense [of "[newObject (DictObj emptyDictionary), newObject NullObj,
                  inc (newObject (NameObj ''N''))]"]
  by (simp add: newObject_def getID_def inc_def indirect_def isStream_def isDictionary_def
      type_def setID_def)

section \<open>Cycles in the source graph\<close>

text \<open>
  A dictionary that is reachable from itself is built once: \<open>VisitDict\<close> enters it in
  \<open>visited\<close> before it visits the values.
\<close>

lemma cyclicDict_terminates:
  "buildGraph (Suc (Suc n)) P cyclicDictDocument 100 100 = Inr (0, 0,
     \<lparr>objectList =
        [\<lparr>refCount = 2, objID = 0, val = DictObj \<lparr>dvalue = [(''S'', 1)], dorder = [''S'']\<rparr>\<rparr>,
         \<lparr>refCount = 2, objID = 0, val = DictObj \<lparr>dvalue = [(''Self'', 1)], dorder = [''Self'']\<rparr>\<rparr>],
      visited = Map.empty\<rparr>)"
  by (simp add: buildGraph_def VisitDict_def emptyContext_def cyclicDictDocument_def Let_def
      IDRef_def insertAndPush_def findVisited_def addValueDictAt_def incAt_def newObject_def
      emptyDictionary_def addValue_def inc_def)


lemma cyclicStream_visit:
  "visited ctx 50 = None \<Longrightarrow> VisitObject n P cyclicStreamDocument 1 ctx = Inl OutOfFuel"
proof (induction n arbitrary: ctx)
  case 0
  then show ?case by simp
next
  case (Suc n)
  from Suc.prems Suc.IH[OF Suc.prems] show ?case
    by (simp add: IDRef_def cyclicStreamDocument_def VisitStream_def)
qed

text \<open>
  C1. \<open>VisitStream\<close> enters a stream in \<open>visited\<close> after it has visited the values
  of the parameter dictionary, so for a stream that is reachable from its own parameter
  dictionary the recursion exceeds every depth: the build of \<open>cyclicStreamDocument\<close>
  returns with no amount of fuel.
\<close>

theorem cyclicStream_diverges:
  "buildGraph n P cyclicStreamDocument 100 100 = Inl OutOfFuel"
proof -
  have "visited (insertAndPush 100 (DictObj emptyDictionary) emptyContext) 50 = None"
    by (simp add: insertAndPush_def emptyContext_def)
  from cyclicStream_visit[OF this, of n P] show ?thesis
    by (simp add: buildGraph_def VisitDict_def emptyContext_def cyclicStreamDocument_def Let_def)
qed

section \<open>Writing dictionaries and streams\<close>

lemma bindE_Inr: "bindE m f = Inr y \<Longrightarrow> \<exists>x. m = Inr x \<and> f x = Inr y"
  by (cases m) simp_all

lemma loopE_Inr:
  "loopE f is = Inr out \<Longrightarrow>
     \<exists>chunks. length chunks = length is \<and> (\<forall>k<length is. f (is ! k) = Inr (chunks ! k))
       \<and> out = concat chunks"
proof (induction "is" arbitrary: out)
  case Nil
  then show ?case by simp
next
  case (Cons i "is")
  from Cons.prems obtain a b where a: "f i = Inr a" and b: "loopE f is = Inr b"
    and out: "out = a @ b"
    by (auto dest!: bindE_Inr)
  from Cons.IH[OF b] obtain chunks where c: "length chunks = length is"
    "\<forall>k<length is. f (is ! k) = Inr (chunks ! k)" "b = concat chunks" by blast
  have "\<forall>k<length (i # is). f ((i # is) ! k) = Inr ((a # chunks) ! k)"
    using a c(2) by (auto simp: nth_Cons split: nat.splits)
  with c out show ?case
    by (intro exI[of _ "a # chunks"]) simp
qed

lemma loopE_upt_Inr:
  assumes "loopE f [0..<m] = Inr out"
  shows "\<exists>chunks. length chunks = m \<and> (\<forall>k<m. f k = Inr (chunks ! k)) \<and> out = concat chunks"
  using loopE_Inr[OF assms] by auto

lemma valueAt_below: "i < count d \<Longrightarrow> valueAt d i k = Inr (valueOf d (dorder d ! i), dorder d ! i)"
  by (simp add: valueAt_def count_def)


lemma concat_map2_nth:
  "length chunks = length ks \<Longrightarrow> (\<forall>i<length ks. chunks ! i = g (ks ! i) (vs ! i)) \<Longrightarrow>
   length vs = length ks \<Longrightarrow> concat chunks = concat (map2 g ks vs)"
proof -
  assume a: "length chunks = length ks" "\<forall>i<length ks. chunks ! i = g (ks ! i) (vs ! i)"
    "length vs = length ks"
  then have "chunks = map2 g ks vs"
    by (intro nth_equalityI) simp_all
  then show ?thesis by simp
qed



lemma writeStreamEntry_Inr:
  "i < count d \<Longrightarrow> writeStreamEntry write objs d sz i = Inr w \<Longrightarrow>
     \<exists>v. (dorder d ! i \<noteq> ''Filter'' \<and> dorder d ! i \<noteq> ''Length'' \<longrightarrow>
            writeChild write objs (valueOf d (dorder d ! i)) [nl] = Inr v)
        \<and> w = (if dorder d ! i = ''Filter'' then []
               else if dorder d ! i = ''Length'' then ''/Length '' @ showNat sz @ [nl]
               else ''/'' @ dorder d ! i @ '' '' @ v)"
  by (auto simp: writeStreamEntry_def valueAt_below dest!: bindE_Inr split: if_splits)

lemma streamDoASCII_Inr:
  "streamDoASCII objs st = Inr b \<Longrightarrow>
     b = (\<not> ((\<exists>t. valueOf (sdict st) ''Type'' = Some t \<and> val (objs ! t) = NameObj ''Metadata'')
             \<or> outputAsText st))"
  by (auto simp: streamDoASCII_def type_def asName_def
      split: option.splits if_splits PDFValue.splits)

lemma WriteObject_stream_form:
  assumes w: "WriteObject n P objs p = Inr out" and p: "p < length objs"
    and s: "val (objs ! p) = StreamObj st"
    and b: "doASCII = (\<not> ((\<exists>t. valueOf (sdict st) ''Type'' = Some t
                               \<and> val (objs ! t) = NameObj ''Metadata'') \<or> outputAsText st))"
  shows "\<exists>m vals. n = Suc m \<and> length vals = count (sdict st)
      \<and> (\<forall>i<count (sdict st). dorder (sdict st) ! i \<noteq> ''Filter''
            \<and> dorder (sdict st) ! i \<noteq> ''Length'' \<longrightarrow>
            writeChild (WriteObject m P objs) objs (valueOf (sdict st) (dorder (sdict st) ! i)) [nl]
              = Inr (vals ! i))
      \<and> out = ''<<'' @ [nl] @ filterLine doASCII (sformat st)
            @ concat (map2 (\<lambda>k v. if k = ''Filter'' then []
                                   else if k = ''Length''
                                   then ''/Length '' @ showNat (length (convertData (sdata st) doASCII)) @ [nl]
                                   else ''/'' @ k @ '' '' @ v) (dorder (sdict st)) vals)
            @ ''>>'' @ [nl] @ ''stream'' @ [nl]
            @ convertData (sdata st) doASCII
            @ [nl] @ ''endstream''"
proof -
  let ?d = "sdict st"
  let ?sz = "length (convertData (sdata st) doASCII)"
  let ?g = "\<lambda>k v. if k = ''Filter'' then []
                   else if k = ''Length'' then ''/Length '' @ showNat ?sz @ [nl]
                   else ''/'' @ k @ '' '' @ v"
  from w obtain m where n: "n = Suc m" by (cases n) simp_all
  from w n p s obtain b' where b': "streamDoASCII objs st = Inr b'"
    by (auto simp: writeStream_def dest!: bindE_Inr)
  from streamDoASCII_Inr[OF b'] b have bb: "b' = doASCII" by simp
  from w n p s b' bb obtain body where
    l: "loopE (writeStreamEntry (WriteObject m P objs) objs ?d ?sz) [0..<count ?d] = Inr body"
    and out: "out = ''<<'' @ [nl] @ filterLine doASCII (sformat st) @ body
            @ ''>>'' @ [nl] @ ''stream'' @ [nl] @ convertData (sdata st) doASCII
            @ [nl] @ ''endstream''"
    by (auto simp: writeStream_def Let_def dest!: bindE_Inr)
  from loopE_upt_Inr[OF l] obtain chunks where c: "length chunks = count ?d"
    "\<forall>k<count ?d. writeStreamEntry (WriteObject m P objs) objs ?d ?sz k = Inr (chunks ! k)"
    "body = concat chunks" by blast
  have "\<forall>k<count ?d. \<exists>v.
        (dorder ?d ! k \<noteq> ''Filter'' \<and> dorder ?d ! k \<noteq> ''Length'' \<longrightarrow>
           writeChild (WriteObject m P objs) objs (valueOf ?d (dorder ?d ! k)) [nl] = Inr v)
        \<and> chunks ! k = ?g (dorder ?d ! k) v"
    using c(2) writeStreamEntry_Inr[of _ ?d "WriteObject m P objs" objs ?sz] by blast
  then obtain vf where vf: "\<forall>k<count ?d.
        (dorder ?d ! k \<noteq> ''Filter'' \<and> dorder ?d ! k \<noteq> ''Length'' \<longrightarrow>
           writeChild (WriteObject m P objs) objs (valueOf ?d (dorder ?d ! k)) [nl] = Inr (vf k))
        \<and> chunks ! k = ?g (dorder ?d ! k) (vf k)"
    by metis
  let ?vals = "map vf [0..<count ?d]"
  have "concat chunks = concat (map2 ?g (dorder ?d) ?vals)"
    using c(1) vf by (intro concat_map2_nth) (simp_all add: count_def)
  with n vf c(3) out show ?thesis
    by (intro exI[of _ m] exI[of _ ?vals]) simp
qed


lemma digit_chars: "map (\<lambda>n. char_of (48 + n)) [0..<10] = ''0123456789''"
  by (simp add: upt_rec char_of_def bit_0)

lemma digit_char: "n < 10 \<Longrightarrow> char_of (48 + n) = ''0123456789'' ! n"
proof -
  assume n: "n < 10"
  then have "map (\<lambda>n. char_of (48 + n)) [0..<10] ! n = char_of (48 + n)"
    by (simp del: upt_Suc)
  then show ?thesis by (simp only: digit_chars)
qed

lemma replicate_numeral: "replicate (numeral k) x = x # replicate (numeral k - 1) x"
  by (simp add: numeral_eq_Suc)

lemma showNat_unfold:
  "showNat n = (if n < 10 then [''0123456789'' ! n]
                else showNat (n div 10) @ [''0123456789'' ! (n mod 10)])"
  by (subst showNat.simps) (simp add: digit_char)

lemma convertLoop_unfold:
  "convertLoop ptr i ostr =
     (if i < length ptr
      then convertLoop ptr (i + 1)
             (if (i + 1) mod 40 = 0 then ostr @ hexDigits (ptr ! i) @ [nl]
              else ostr @ hexDigits (ptr ! i))
      else ostr)"
  by (subst convertLoop.simps) (simp add: Let_def)

lemma WriteObject_numeral:
  "WriteObject (numeral k) P objs obj = WriteObject (Suc (pred_numeral k)) P objs obj"
  by (simp add: numeral_eq_Suc)

lemma exampleStream_output: "WriteObject 2 examplePlatform exampleStreamObjects 0 = Inr (''<<'' @ [nl]
    @ ''/Filter [/ASCIIHexDecode /DCTDecode]'' @ [nl]
    @ ''/Length 3'' @ [nl]
    @ ''/A B 7'' @ [nl]
    @ ''>>'' @ [nl] @ ''stream'' @ [nl] @ ''AB'' @ [nl] @ [nl] @ ''endstream'')"
  by (simp add: WriteObject_numeral exampleStreamObjects_def exampleStream_def newObject_def
      writeStream_def streamDoASCII_def valueOf_def filterLine_def convertData_def
      convertLoop_unfold hexDigits_hexPair hexPair_def count_def
      writeStreamEntry_def valueAt_def writeChild_def indirect_def isStream_def isDictionary_def
      type_def showInt_def showNat_unfold Let_def)

text \<open>
  C6 as stated fails for a stream whose parameter dictionary has no \<open>Length\<close> key:
  the dictionary that is written has no \<open>Length\<close> entry.
\<close>

theorem bareStream_output: "WriteObject 1 examplePlatform [newObject (StreamObj bareStream)] 0 = Inr (''<<'' @ [nl]
    @ ''/Filter /ASCIIHexDecode'' @ [nl]
    @ ''>>'' @ [nl] @ ''stream'' @ [nl] @ ''AB'' @ [nl] @ [nl] @ ''endstream'')"
  by (simp add: bareStream_def emptyDictionary_def newObject_def
      writeStream_def streamDoASCII_def valueOf_def filterLine_def convertData_def
      convertLoop_unfold hexDigits_hexPair hexPair_def count_def
      Let_def)



lemma length_hexDigits: "length (hexDigits x) = 2"
  by (simp add: hexDigits_def Let_def)

lemma length_armorFrom:
  "length (armorFrom i bs) = 2 * length bs + (i mod 40 + length bs) div 40"
proof (induction bs arbitrary: i)
  case Nil
  then show ?case by simp
next
  case (Cons x xs)
  show ?case
  proof (cases "Suc i mod 40 = 0")
    case True
    then have "i mod 40 = 39" by (simp add: mod_Suc split: if_splits)
    with True Cons.IH[of "Suc i"] show ?thesis by (simp add: length_hexDigits)
  next
    case False
    then have "Suc i mod 40 = Suc (i mod 40)" by (simp add: mod_Suc split: if_splits)
    with False Cons.IH[of "Suc i"] show ?thesis by (simp add: length_hexDigits)
  qed
qed

lemma length_convertData:
  "length (convertData data True) = 2 * length data + length data div 40 + 1"
  "length (convertData data False) = length data"
  by (simp_all add: convertData_def convertLoop_armorFrom length_armorFrom chars_of_bytes_def)

lemma filterLine_cases:
  "filterLine b f = [] \<or> filterLine b f = ''/Filter [/ASCIIHexDecode /DCTDecode]'' @ [nl]
   \<or> filterLine b f = ''/Filter [/ASCIIHexDecode /JPXDecode]'' @ [nl]
   \<or> filterLine b f = ''/Filter /ASCIIHexDecode'' @ [nl]"
  by (simp add: filterLine_def)

text \<open>
  C6, as amended. For a stream node, every key \<open>Length\<close> of the parameter dictionary
  is written, in its place, as \<open>/Length N\<close> where \<open>N\<close> is the length of the payload
  that is written between \<open>stream\<close> and \<open>endstream\<close> (the armoured bytes when the
  stream is armoured, whose length is given by \<open>length_convertData\<close>); a key
  \<open>Filter\<close> of the parameter dictionary is not written, and the only Filter entry is the
  one computed for the payload. A parameter dictionary without the key gets no entry.
\<close>

theorem stream_Length_entry:
  assumes "WriteObject n P objs p = Inr out" and "p < length objs"
    and "val (objs ! p) = StreamObj st"
  shows "\<exists>filt vals payload.
      payload = convertData (sdata st)
         (\<not> ((\<exists>t. valueOf (sdict st) ''Type'' = Some t \<and> val (objs ! t) = NameObj ''Metadata'')
              \<or> outputAsText st))
    \<and> length vals = count (sdict st)
    \<and> (filt = [] \<or> filt = ''/Filter [/ASCIIHexDecode /DCTDecode]'' @ [nl]
        \<or> filt = ''/Filter [/ASCIIHexDecode /JPXDecode]'' @ [nl]
        \<or> filt = ''/Filter /ASCIIHexDecode'' @ [nl])
    \<and> out = ''<<'' @ [nl] @ filt
          @ concat (map2 (\<lambda>k v. if k = ''Filter'' then []
                                 else if k = ''Length''
                                 then ''/Length '' @ showNat (length payload) @ [nl]
                                 else ''/'' @ k @ '' '' @ v) (dorder (sdict st)) vals)
          @ ''>>'' @ [nl] @ ''stream'' @ [nl] @ payload @ [nl] @ ''endstream''"
proof -
  from WriteObject_stream_form[OF assms refl] obtain m vals where
    "length vals = count (sdict st)"
    "out = ''<<'' @ [nl] @ filterLine (\<not> ((\<exists>t. valueOf (sdict st) ''Type'' = Some t
              \<and> val (objs ! t) = NameObj ''Metadata'') \<or> outputAsText st)) (sformat st)
          @ concat (map2 (\<lambda>k v. if k = ''Filter'' then []
                else if k = ''Length''
                then ''/Length '' @ showNat (length (convertData (sdata st)
                   (\<not> ((\<exists>t. valueOf (sdict st) ''Type'' = Some t
                     \<and> val (objs ! t) = NameObj ''Metadata'') \<or> outputAsText st)))) @ [nl]
                else ''/'' @ k @ '' '' @ v) (dorder (sdict st)) vals)
          @ ''>>'' @ [nl] @ ''stream'' @ [nl]
          @ convertData (sdata st) (\<not> ((\<exists>t. valueOf (sdict st) ''Type'' = Some t
              \<and> val (objs ! t) = NameObj ''Metadata'') \<or> outputAsText st))
          @ [nl] @ ''endstream''"
    by blast
  then show ?thesis
    using filterLine_cases by blast
qed

theorem stream_Length_entry_witness:
  "WriteObject 2 examplePlatform exampleStreamObjects 0 = Inr (''<<'' @ [nl]
    @ ''/Filter [/ASCIIHexDecode /DCTDecode]'' @ [nl]
    @ ''/Length 3'' @ [nl]
    @ ''/A B 7'' @ [nl]
    @ ''>>'' @ [nl] @ ''stream'' @ [nl] @ ''AB'' @ [nl] @ [nl] @ ''endstream'')
   \<and> 0 < length exampleStreamObjects
   \<and> val (exampleStreamObjects ! 0) = StreamObj exampleStream"
  using stream_Length_entry [OF exampleStream_output, of exampleStream] exampleStream_output
  by (simp add: exampleStreamObjects_def newObject_def)

lemma loopE_map:
  "\<forall>i\<in>set is. f i = Inr (g i) \<Longrightarrow> loopE f is = Inr (concat (map g is))"
  by (induction "is") simp_all

lemma streamDoASCII_value:
  assumes "\<forall>t. valueOf (sdict st) ''Type'' = Some t \<longrightarrow> t < length objs"
  shows "streamDoASCII objs st
     = Inr (\<not> ((\<exists>t. valueOf (sdict st) ''Type'' = Some t \<and> val (objs ! t) = NameObj ''Metadata'')
                \<or> outputAsText st))"
proof (cases "valueOf (sdict st) ''Type''")
  case None
  then show ?thesis by (simp add: streamDoASCII_def)
next
  case (Some t)
  with assms have "t < length objs" by simp
  with Some show ?thesis
    by (cases "val (objs ! t)") (simp_all add: streamDoASCII_def type_def asName_def)
qed

lemma writeStreamEntry_value:
  assumes "i < count d"
    and "dorder d ! i \<noteq> ''Filter'' \<and> dorder d ! i \<noteq> ''Length'' \<longrightarrow>
           writeChild write objs (valueOf d (dorder d ! i)) [nl] = Inr v"
  shows "writeStreamEntry write objs d sz i
     = Inr (if dorder d ! i = ''Filter'' then []
            else if dorder d ! i = ''Length'' then ''/Length '' @ showNat sz @ [nl]
            else ''/'' @ dorder d ! i @ '' '' @ v)"
  using assms by (simp add: writeStreamEntry_def valueAt_below)

text \<open>
  C7. A stream node whose entries are written is written, and what is written is this.
  When the \<open>Type\<close> entry of the parameter dictionary is the name \<open>Metadata\<close>, or
  \<open>outputAsText\<close> is set, the body is the bytes of the data, one character for each
  byte, and there is no Filter entry; otherwise the body is the bytes hex-armoured
  (\<open>hexArmor 80\<close>, two digits for every byte) and the Filter entry is
  \<open>[/ASCIIHexDecode /DCTDecode]\<close> for JPEG data, \<open>[/ASCIIHexDecode /JPXDecode]\<close> for
  JPEG 2000 data and \<open>/ASCIIHexDecode\<close> for raw data. \<open>vals\<close> are what the values of
  the entries are written as.
\<close>

theorem stream_encoding_policy:
  assumes p: "p < length objs" and s: "val (objs ! p) = StreamObj st"
    and ty: "\<forall>t. valueOf (sdict st) ''Type'' = Some t \<longrightarrow> t < length objs"
    and lv: "length vals = count (sdict st)"
    and ch: "\<forall>i<count (sdict st). dorder (sdict st) ! i \<noteq> ''Filter''
               \<and> dorder (sdict st) ! i \<noteq> ''Length'' \<longrightarrow>
               writeChild (WriteObject m P objs) objs (valueOf (sdict st) (dorder (sdict st) ! i)) [nl]
                 = Inr (vals ! i)"
  shows "WriteObject (Suc m) P objs p = Inr
     (let raw = ((\<exists>t. valueOf (sdict st) ''Type'' = Some t \<and> val (objs ! t) = NameObj ''Metadata'')
                 \<or> outputAsText st);
          body = (if raw then map (\<lambda>b. char_of (uint b)) (sdata st) else hexArmor 80 (sdata st))
      in ''<<'' @ [nl]
         @ (if raw then []
            else ''/Filter '' @ (case sformat st of
                     CGPDFDataFormatJPEGEncoded \<Rightarrow> ''[/ASCIIHexDecode /DCTDecode]''
                   | CGPDFDataFormatJPEG2000 \<Rightarrow> ''[/ASCIIHexDecode /JPXDecode]''
                   | CGPDFDataFormatRaw \<Rightarrow> ''/ASCIIHexDecode'') @ [nl])
         @ concat (map2 (\<lambda>k v. if k = ''Filter'' then []
                                else if k = ''Length''
                                then ''/Length '' @ showNat (length body) @ [nl]
                                else ''/'' @ k @ '' '' @ v) (dorder (sdict st)) vals)
         @ ''>>'' @ [nl] @ ''stream'' @ [nl] @ body @ [nl] @ ''endstream'')"
proof -
  define raw where "raw \<longleftrightarrow>
     (\<exists>t. valueOf (sdict st) ''Type'' = Some t \<and> val (objs ! t) = NameObj ''Metadata'')
       \<or> outputAsText st"
  let ?d = "sdict st"
  define body where "body = convertData (sdata st) (\<not> raw)"
  let ?g = "\<lambda>k v. if k = ''Filter'' then []
                   else if k = ''Length'' then ''/Length '' @ showNat (length body) @ [nl]
                   else ''/'' @ k @ '' '' @ v"
  have "hexDigits = hexPair" by (rule ext) (rule hexDigits_hexPair)
  then have armour: "convertData (sdata st) True = hexArmor 80 (sdata st)"
    by (simp add: convertData_def hexArmor_def convertLoop_armorFrom armorFrom_breakEvery)
  have bd: "body = (if raw then map (\<lambda>b. char_of (uint b)) (sdata st) else hexArmor 80 (sdata st))"
    unfolding body_def using armour by (cases raw) (simp_all add: convertData_def chars_of_bytes_def)
  have fl: "filterLine (\<not> raw) (sformat st) = (if raw then []
            else ''/Filter '' @ (case sformat st of
                     CGPDFDataFormatJPEGEncoded \<Rightarrow> ''[/ASCIIHexDecode /DCTDecode]''
                   | CGPDFDataFormatJPEG2000 \<Rightarrow> ''[/ASCIIHexDecode /JPXDecode]''
                   | CGPDFDataFormatRaw \<Rightarrow> ''/ASCIIHexDecode'') @ [nl])"
    by (cases "sformat st") (simp_all add: filterLine_def)
  have da: "streamDoASCII objs st = Inr (\<not> raw)"
    unfolding raw_def by (rule streamDoASCII_value[OF ty])
  have "\<forall>i\<in>set [0..<count ?d]. writeStreamEntry (WriteObject m P objs) objs ?d (length body) i
      = Inr (?g (dorder ?d ! i) (vals ! i))"
    using ch by (simp add: writeStreamEntry_value)
  from loopE_map[OF this]
  have lp: "loopE (writeStreamEntry (WriteObject m P objs) objs ?d (length body)) [0..<count ?d]
      = Inr (concat (map (\<lambda>i. ?g (dorder ?d ! i) (vals ! i)) [0..<count ?d]))" .
  have mp: "map (\<lambda>i. ?g (dorder ?d ! i) (vals ! i)) [0..<count ?d] = map2 ?g (dorder ?d) vals"
    using lv by (intro nth_equalityI) (simp_all add: count_def)
  have "WriteObject (Suc m) P objs p = Inr (''<<'' @ [nl] @ filterLine (\<not> raw) (sformat st)
         @ concat (map2 ?g (dorder ?d) vals)
         @ ''>>'' @ [nl] @ ''stream'' @ [nl] @ body @ [nl] @ ''endstream'')"
    using p s lp[unfolded mp] by (simp add: writeStream_def da Let_def body_def[symmetric])
  then show ?thesis
    unfolding Let_def raw_def[symmetric] fl bd[symmetric] by simp
qed


lemma policy_text:
  "WriteObject 2 examplePlatform policyObjects 1 = Inr (''<<'' @ [nl]
      @ ''/Length 2'' @ [nl]
      @ ''>>'' @ [nl] @ ''stream'' @ [nl] @ ''AB'' @ [nl] @ ''endstream'')"
  by (simp add: WriteObject_numeral policyObjects_def newObject_def
      writeStream_def streamDoASCII_def valueOf_def filterLine_def convertData_def
      chars_of_bytes_def char_of_def count_def
      writeStreamEntry_def valueAt_def writeChild_def indirect_def isStream_def isDictionary_def
      type_def asName_def showNat_unfold Let_def)

lemma policy_hex:
  "WriteObject 2 examplePlatform policyObjects 3 = Inr (''<<'' @ [nl]
      @ ''/Filter /ASCIIHexDecode'' @ [nl] @ ''/Length 5'' @ [nl]
      @ ''>>'' @ [nl] @ ''stream'' @ [nl] @ ''4142'' @ [nl] @ [nl] @ ''endstream'')"
  by (simp add: WriteObject_numeral policyObjects_def newObject_def
      writeStream_def streamDoASCII_def valueOf_def filterLine_def convertData_def
      convertLoop_unfold hexDigits_hexPair hexPair_def count_def
      writeStreamEntry_def valueAt_def writeChild_def indirect_def isStream_def isDictionary_def
      type_def asName_def showNat_unfold Let_def)


theorem stream_encoding_policy_witness:
  "WriteObject 2 examplePlatform policyObjects 0 = Inr (''<<'' @ [nl]
      @ ''/Type /Metadata'' @ [nl] @ ''/Length 2'' @ [nl]
      @ ''>>'' @ [nl] @ ''stream'' @ [nl] @ ''AB'' @ [nl] @ ''endstream'')
   \<and> WriteObject 2 examplePlatform policyObjects 1 = Inr (''<<'' @ [nl]
      @ ''/Length 2'' @ [nl]
      @ ''>>'' @ [nl] @ ''stream'' @ [nl] @ ''AB'' @ [nl] @ ''endstream'')
   \<and> WriteObject 2 examplePlatform policyObjects 2 = Inr (''<<'' @ [nl]
      @ ''/Filter [/ASCIIHexDecode /JPXDecode]'' @ [nl] @ ''/Length 5'' @ [nl]
      @ ''>>'' @ [nl] @ ''stream'' @ [nl] @ ''4142'' @ [nl] @ [nl] @ ''endstream'')
   \<and> WriteObject 2 examplePlatform policyObjects 3 = Inr (''<<'' @ [nl]
      @ ''/Filter /ASCIIHexDecode'' @ [nl] @ ''/Length 5'' @ [nl]
      @ ''>>'' @ [nl] @ ''stream'' @ [nl] @ ''4142'' @ [nl] @ [nl] @ ''endstream'')"
proof -
  let ?objs = policyObjects
  let ?w = "WriteObject 1 examplePlatform ?objs"
  let ?s0 = "\<lparr>sdict = \<lparr>dvalue = [(''Type'', 4), (''Length'', 5)], dorder = [''Type'', ''Length'']\<rparr>,
              sdata = [0x41, 0x42], sformat = CGPDFDataFormatJPEGEncoded, outputAsText = False\<rparr>"
  let ?s2 = "\<lparr>sdict = \<lparr>dvalue = [(''Length'', 5)], dorder = [''Length'']\<rparr>,
              sdata = [0x41, 0x42], sformat = CGPDFDataFormatJPEG2000, outputAsText = False\<rparr>"
  have a1: "0 < length ?objs" and c1: "2 < length ?objs" by (simp_all add: policyObjects_def)
  have a2: "val (?objs ! 0) = StreamObj ?s0" and c2: "val (?objs ! 2) = StreamObj ?s2"
    by (simp_all add: policyObjects_def newObject_def)
  have a3: "\<forall>t. valueOf (sdict ?s0) ''Type'' = Some t \<longrightarrow> t < length ?objs"
    and c3: "\<forall>t. valueOf (sdict ?s2) ''Type'' = Some t \<longrightarrow> t < length ?objs"
    by (simp_all add: valueOf_def policyObjects_def)
  have a4: "length [''/Metadata'' @ [nl], []] = count (sdict ?s0)"
    and c4: "length [[]] = count (sdict ?s2)"
    by (simp_all add: count_def)
  have a5: "\<forall>i<count (sdict ?s0). dorder (sdict ?s0) ! i \<noteq> ''Filter''
               \<and> dorder (sdict ?s0) ! i \<noteq> ''Length'' \<longrightarrow>
               writeChild ?w ?objs (valueOf (sdict ?s0) (dorder (sdict ?s0) ! i)) [nl]
                 = Inr ([''/Metadata'' @ [nl], []] ! i)"
    by (simp add: count_def less_Suc_eq valueOf_def writeChild_def policyObjects_def newObject_def
        indirect_def isStream_def isDictionary_def type_def)
  have c5: "\<forall>i<count (sdict ?s2). dorder (sdict ?s2) ! i \<noteq> ''Filter''
               \<and> dorder (sdict ?s2) ! i \<noteq> ''Length'' \<longrightarrow>
               writeChild ?w ?objs (valueOf (sdict ?s2) (dorder (sdict ?s2) ! i)) [nl]
                 = Inr ([[]] ! i)"
    by (simp add: count_def)
  from stream_encoding_policy [OF a1 a2 a3 a4 a5]
  have m: "WriteObject 2 examplePlatform ?objs 0 = Inr (''<<'' @ [nl]
      @ ''/Type /Metadata'' @ [nl] @ ''/Length 2'' @ [nl]
      @ ''>>'' @ [nl] @ ''stream'' @ [nl] @ ''AB'' @ [nl] @ ''endstream'')"
    by (simp add: WriteObject_numeral valueOf_def policyObjects_def newObject_def char_of_def
        showNat_unfold)
  from stream_encoding_policy [OF c1 c2 c3 c4 c5]
  have j: "WriteObject 2 examplePlatform ?objs 2 = Inr (''<<'' @ [nl]
      @ ''/Filter [/ASCIIHexDecode /JPXDecode]'' @ [nl] @ ''/Length 5'' @ [nl]
      @ ''>>'' @ [nl] @ ''stream'' @ [nl] @ ''4142'' @ [nl] @ [nl] @ ''endstream'')"
    by (simp add: WriteObject_numeral valueOf_def hexArmor_def hexPair_def length_breakEvery_short
        showNat_unfold)
  from m policy_text j policy_hex show ?thesis by (simp only: simp_thms)
qed






section \<open>The cross-reference table\<close>

lemma foldE_preserves:
  assumes step: "\<And>x s s'. f x s = Inr s' \<Longrightarrow> I s \<Longrightarrow> I s'"
  shows "foldE f xs s = Inr s' \<Longrightarrow> I s \<Longrightarrow> I s'"
proof (induction xs arbitrary: s)
  case Nil
  then show ?case by simp
next
  case (Cons x xs)
  from Cons.prems(1) obtain s1 where s1: "f x s = Inr s1" and r: "foldE f xs s1 = Inr s'"
    by (auto dest!: bindE_Inr)
  from step[OF s1 Cons.prems(2)] have "I s1" .
  with Cons.IH[OF r] show ?case by simp
qed

lemma map_update_same: "f y = f (xs ! p) \<Longrightarrow> map f (xs[p := y]) = map f xs"
proof (cases "p < length xs")
  case True
  assume "f y = f (xs ! p)"
  with True have "(map f xs)[p := f y] = map f xs"
    by (simp add: list_update_same_conv)
  then show ?thesis by (simp add: map_update)
next
  case False
  then have "xs[p := y] = xs" by (intro list_update_beyond) simp
  then show ?thesis by simp
qed

lemma setOutputAsText_shape:
  "length (setOutputAsText p objs) = length objs
   \<and> map indirect (setOutputAsText p objs) = map indirect objs
   \<and> map getID (setOutputAsText p objs) = map getID objs"
proof (cases "val (objs ! p)")
  case (StreamObj st)
  let ?ob = "(objs ! p)\<lparr>val := StreamObj (st\<lparr>outputAsText := True\<rparr>)\<rparr>"
  have i: "indirect ?ob = indirect (objs ! p)"
    using StreamObj by (simp add: indirect_def isStream_def isDictionary_def type_def)
  have g: "getID ?ob = getID (objs ! p)"
    by (simp add: getID_def)
  have "map indirect (objs[p := ?ob]) = map indirect objs"
    by (rule map_update_same) (rule i)
  moreover have "map getID (objs[p := ?ob]) = map getID objs"
    by (rule map_update_same) (rule g)
  ultimately show ?thesis
    using StreamObj by (simp add: setOutputAsText_def)
qed (simp_all add: setOutputAsText_def)

lemma locateContents_shape:
  assumes "locateContents P it objs = Inr objs'"
  shows "length objs' = length objs \<and> map indirect objs' = map indirect objs
         \<and> map getID objs' = map getID objs"
proof -
  from assms have "objs' = objs \<or> (\<exists>p. objs' = setOutputAsText p objs)"
    by (auto simp: locateContents_def split: PDFValue.splits option.splits if_splits)
  then show ?thesis using setOutputAsText_shape by auto
qed

lemma locateContents_fold_shape:
  assumes "foldE (locateContents P) is objs1 = Inr objs"
  shows "length objs = length objs1 \<and> map indirect objs = map indirect objs1
         \<and> map getID objs = map getID objs1"
  using assms
  by (rule foldE_preserves[where I = "\<lambda>s. length s = length objs1
         \<and> map indirect s = map indirect objs1 \<and> map getID s = map getID objs1", rotated])
     (auto dest: locateContents_shape)

lemma writeBody_fold:
  "foldE (writeBodyObject n P objs start) is (s, x) = Inr (s', x') \<Longrightarrow>
   distinct (map fst x @ map getID (filter indirect (map ((!) objs) is))) \<Longrightarrow>
   map fst x' = map fst x @ map getID (filter indirect (map ((!) objs) is))
   \<and> (\<exists>w. s' = s @ w)"
proof (induction "is" arbitrary: s x)
  case Nil
  then show ?case by simp
next
  case (Cons i "is")
  from Cons.prems(1) obtain s1 x1 where
    st: "writeBodyObject n P objs start i (s, x) = Inr (s1, x1)"
    and r: "foldE (writeBodyObject n P objs start) is (s1, x1) = Inr (s', x')"
    by (auto dest!: bindE_Inr)
  show ?case
  proof (cases "indirect (objs ! i)")
    case True
    from Cons.prems(2) True have nin: "getID (objs ! i) \<notin> set (map fst x)" by auto
    then have "map_of x (getID (objs ! i)) = None" by (simp add: map_of_eq_None_iff)
    with st True obtain w where s1: "s1 = s @ w" and x1: "map fst x1 = map fst x @ [getID (objs ! i)]"
      by (auto simp: writeBodyObject_def xrefInsert_def dest!: bindE_Inr)
    from Cons.prems(2) True x1
    have "distinct (map fst x1 @ map getID (filter indirect (map ((!) objs) is)))" by simp
    from Cons.IH[OF r this] True s1 x1 show ?thesis by auto
  next
    case False
    with st have "s1 = s" "x1 = x" by (auto simp: writeBodyObject_def)
    with Cons.IH[of s x] r Cons.prems(2) False show ?thesis by simp
  qed
qed

lemma distinct_ids: "distinct (map int [1..<Suc K])"
  by (simp add: distinct_map inj_on_def)

lemma writeXrefEntry_Inr:
  "writeXrefEntry xref k = Inr w \<Longrightarrow> \<exists>off. w = showPadded10 off @ '' 00000 n '' @ [nl]"
  by (auto simp: writeXrefEntry_def split: option.splits)

lemma xref_entries:
  assumes "loopE (writeXrefEntry xref) is = Inr entries"
  shows "\<exists>offs. length offs = length is
     \<and> entries = concat (map (\<lambda>off. showPadded10 off @ '' 00000 n '' @ [nl]) offs)"
proof -
  from loopE_Inr[OF assms] obtain chunks where c: "length chunks = length is"
    "\<forall>k<length is. writeXrefEntry xref (is ! k) = Inr (chunks ! k)" "entries = concat chunks"
    by blast
  then have "\<forall>k<length is. \<exists>off. chunks ! k = showPadded10 off @ '' 00000 n '' @ [nl]"
    using writeXrefEntry_Inr by blast
  then obtain f where f: "\<forall>k<length is. chunks ! k = showPadded10 (f k) @ '' 00000 n '' @ [nl]"
    by metis
  have "chunks = map (\<lambda>off. showPadded10 off @ '' 00000 n '' @ [nl]) (map f [0..<length is])"
    using c(1) f by (intro nth_equalityI) simp_all
  with c(3) show ?thesis by (intro exI[of _ "map f [0..<length is]"]) simp
qed

lemma SavePDF_Inr:
  assumes "SavePDF n P s0 majorVersion minorVersion objectList0 i_root i_info = Inr (out, objs)"
  shows "\<exists>s2 xref entries.
      foldE (locateContents P) [0..<length (setIDs 0 objectList0)] (setIDs 0 objectList0) = Inr objs
    \<and> foldE (writeBodyObject n P objs (tellp P s0)) [0..<length objs]
          (s0 @ ''%PDF-'' @ showInt majorVersion @ ''.'' @ showInt minorVersion @ [nl]
             @ ''%...'' @ [nl], []) = Inr (s2, xref)
    \<and> loopE (writeXrefEntry xref) [1..<length xref + 1] = Inr entries
    \<and> out = s2 @ ''xref'' @ [nl] @ ''0 '' @ showNat (length xref) @ [nl]
                     @ ''0000000000 00000 n '' @ [nl] @ entries
                     @ ''trailer'' @ [nl]
                     @ ''<< /Size '' @ showNat (length xref)
                     @ '' /Root '' @ showInt (getID (objs ! i_root))
                     @ '' 0 R /Info '' @ showInt (getID (objs ! i_info)) @ '' 0 R>>'' @ [nl]
                     @ ''startxref'' @ [nl]
                     @ showInt (tellp P s2 - tellp P s0) @ [nl]
                     @ ''%%EOF'' @ [nl]"
  using assms unfolding SavePDF_def Let_def
  apply (drule_tac bindE_Inr)
  apply (erule exE, erule conjE)
  apply (drule_tac bindE_Inr)
  apply (erule exE, erule conjE)
  apply (case_tac xa)
  apply (simp only: prod.case)
  apply (drule_tac bindE_Inr)
  apply (erule exE, erule conjE)
  apply (simp only: sum.inject sum.distinct prod.inject split: if_splits)
  apply (elim conjE)
  apply (rule_tac x=a in exI)
  apply (rule_tac x=b in exI)
  apply (rule_tac x=xb in exI)
  apply (intro conjI)
     apply (simp only:)
    apply (simp only:)
   apply (simp only:)
  apply (drule sym)
  apply (simp only: append_assoc)
  apply (drule sym)
  apply (simp only: append_assoc)
  done

lemma filter_ids_cong:
  "map indirect xs = map indirect ys \<Longrightarrow> map getID xs = map getID ys \<Longrightarrow>
     map getID (filter indirect xs) = map getID (filter indirect ys)"
proof (induction xs arbitrary: ys)
  case Nil
  then show ?case by simp
next
  case (Cons x xs)
  from Cons.prems obtain y ys' where ys: "ys = y # ys'" by (cases ys) simp_all
  with Cons.prems have h: "indirect x = indirect y" "getID x = getID y"
    "map indirect xs = map indirect ys'" "map getID xs = map getID ys'" by simp_all
  from Cons.IH[OF h(3,4)] h(1,2) ys show ?case by simp
qed

text \<open>
  C4. Whatever \<open>SavePDF\<close> writes has this shape: with K the number of indirect objects,
  the header of the cross-reference table and the \<open>Size\<close> of the trailer both give K,
  and the table holds the entry of the free-list head and K more, K + 1 in all. So the
  two counts are one less than the number of entries written, and not K + 1.
\<close>

theorem SavePDF_xref_count:
  assumes "SavePDF n P s0 majorVersion minorVersion objectList0 i_root i_info = Inr (out, objs)"
  shows "\<exists>body offs rootID infoID startXref.
      length offs = length (filter indirect objectList0)
    \<and> out = s0 @ ''%PDF-'' @ showInt majorVersion @ ''.'' @ showInt minorVersion @ [nl]
          @ ''%...'' @ [nl]
          @ body
          @ ''xref'' @ [nl]
          @ ''0 '' @ showNat (length (filter indirect objectList0)) @ [nl]
          @ ''0000000000 00000 n '' @ [nl]
          @ concat (map (\<lambda>off. showPadded10 off @ '' 00000 n '' @ [nl]) offs)
          @ ''trailer'' @ [nl]
          @ ''<< /Size '' @ showNat (length (filter indirect objectList0))
          @ '' /Root '' @ rootID @ '' 0 R /Info '' @ infoID @ '' 0 R>>'' @ [nl]
          @ ''startxref'' @ [nl] @ startXref @ [nl] @ ''%%EOF'' @ [nl]"
proof -
  let ?K = "length (filter indirect objectList0)"
  let ?objs1 = "setIDs 0 objectList0"
  define s1 where "s1 = s0 @ ''%PDF-'' @ showInt majorVersion @ ''.'' @ showInt minorVersion @ [nl]
                     @ ''%...'' @ [nl]"
  from SavePDF_Inr[OF assms] obtain s2 xref entries where
    lc: "foldE (locateContents P) [0..<length ?objs1] ?objs1 = Inr objs"
    and wb: "foldE (writeBodyObject n P objs (tellp P s0)) [0..<length objs] (s1, []) = Inr (s2, xref)"
    and xe: "loopE (writeXrefEntry xref) [1..<length xref + 1] = Inr entries"
    and out: "out = s2 @ ''xref'' @ [nl] @ ''0 '' @ showNat (length xref) @ [nl]
                     @ ''0000000000 00000 n '' @ [nl] @ entries
                     @ ''trailer'' @ [nl]
                     @ ''<< /Size '' @ showNat (length xref)
                     @ '' /Root '' @ showInt (getID (objs ! i_root))
                     @ '' 0 R /Info '' @ showInt (getID (objs ! i_info)) @ '' 0 R>>'' @ [nl]
                     @ ''startxref'' @ [nl]
                     @ showInt (tellp P s2 - tellp P s0) @ [nl]
                     @ ''%%EOF'' @ [nl]"
    unfolding s1_def by blast
  from locateContents_fold_shape[OF lc]
  have sh: "map indirect objs = map indirect ?objs1" "map getID objs = map getID ?objs1"
    by simp_all
  have fi: "map getID (filter indirect objs) = map getID (filter indirect ?objs1)"
    using sh by (rule filter_ids_cong)
  have ids: "map getID (filter indirect objs) = map int [1..<Suc ?K]"
    using fi setIDs_ids[of 0 objectList0] by simp
  have m: "map ((!) objs) [0..<length objs] = objs" by (rule map_nth)
  from writeBody_fold[OF wb] ids m distinct_ids[of ?K]
  have x: "map fst xref = map int [1..<Suc ?K]" and "\<exists>w. s2 = s1 @ w" by simp_all
  then obtain body where s2: "s2 = s1 @ body" by blast
  have "length (map fst xref) = length (map int [1..<Suc ?K])" using x by (simp only:)
  then have lx: "length xref = ?K" by (simp del: upt_Suc)
  have "length [1..<length xref + 1] = ?K" using lx by (simp del: upt_Suc)
  with xref_entries[OF xe] obtain offs where
    o: "length offs = ?K" "entries = concat (map (\<lambda>off. showPadded10 off @ '' 00000 n '' @ [nl]) offs)"
    by (elim exE conjE) (simp only:)
  have "out = s0 @ ''%PDF-'' @ showInt majorVersion @ ''.'' @ showInt minorVersion @ [nl]
          @ ''%...'' @ [nl]
          @ body
          @ ''xref'' @ [nl]
          @ ''0 '' @ showNat ?K @ [nl]
          @ ''0000000000 00000 n '' @ [nl]
          @ concat (map (\<lambda>off. showPadded10 off @ '' 00000 n '' @ [nl]) offs)
          @ ''trailer'' @ [nl]
          @ ''<< /Size '' @ showNat ?K
          @ '' /Root '' @ showInt (getID (objs ! i_root)) @ '' 0 R /Info ''
          @ showInt (getID (objs ! i_info)) @ '' 0 R>>'' @ [nl]
          @ ''startxref'' @ [nl] @ showInt (tellp P s2 - tellp P s0) @ [nl] @ ''%%EOF'' @ [nl]"
    unfolding out s2 s1_def lx o(2) by (simp only: append_assoc)
  with o(1) show ?thesis
    apply (rule_tac x=body in exI)
    apply (rule_tac x=offs in exI)
    apply (rule_tac x="showInt (getID (objs ! i_root))" in exI)
    apply (rule_tac x="showInt (getID (objs ! i_info))" in exI)
    apply (rule_tac x="showInt (tellp P s2 - tellp P s0)" in exI)
    apply (rule conjI)
     apply assumption
    apply assumption
    done
qed


lemma twoDictionaries_output:
  "SavePDF (Suc 0) examplePlatform [] 1 4 twoDictionaries 0 1 = Inr (
  ''%PDF-1.4'' @ [nl] @ ''%...'' @ [nl]
  @ ''1 0 obj'' @ [nl] @ ''<<'' @ [nl] @ ''>>'' @ [nl] @ ''endobj'' @ [nl]
  @ ''2 0 obj'' @ [nl] @ ''<<'' @ [nl] @ ''>>'' @ [nl] @ ''endobj'' @ [nl]
  @ ''xref'' @ [nl]
  @ ''0 2'' @ [nl]
  @ ''0000000000 00000 n '' @ [nl]
  @ ''0000000000 00000 n '' @ [nl]
  @ ''0000000000 00000 n '' @ [nl]
  @ ''trailer'' @ [nl]
  @ ''<< /Size 2 /Root 1 0 R /Info 2 0 R>>'' @ [nl]
  @ ''startxref'' @ [nl]
  @ ''0'' @ [nl]
  @ ''%%EOF'' @ [nl],
  [setID 1 (newObject (DictObj emptyDictionary)), setID 2 (newObject (DictObj emptyDictionary))])"
  by (simp add: SavePDF_def twoDictionaries_def newObject_def emptyDictionary_def indirect_def
      isStream_def isDictionary_def type_def setID_def getID_def locateContents_def valueOf_def
      writeBodyObject_def count_def xrefInsert_def writeXrefEntry_def showPadded10_def
      examplePlatform_def showInt_def showNat_unfold replicate_numeral Let_def)

theorem SavePDF_xref_count_witness:
  "SavePDF (Suc 0) examplePlatform [] 1 4 twoDictionaries 0 1 = Inr (
  ''%PDF-1.4'' @ [nl] @ ''%...'' @ [nl]
  @ ''1 0 obj'' @ [nl] @ ''<<'' @ [nl] @ ''>>'' @ [nl] @ ''endobj'' @ [nl]
  @ ''2 0 obj'' @ [nl] @ ''<<'' @ [nl] @ ''>>'' @ [nl] @ ''endobj'' @ [nl]
  @ ''xref'' @ [nl]
  @ ''0 2'' @ [nl]
  @ ''0000000000 00000 n '' @ [nl]
  @ ''0000000000 00000 n '' @ [nl]
  @ ''0000000000 00000 n '' @ [nl]
  @ ''trailer'' @ [nl]
  @ ''<< /Size 2 /Root 1 0 R /Info 2 0 R>>'' @ [nl]
  @ ''startxref'' @ [nl]
  @ ''0'' @ [nl]
  @ ''%%EOF'' @ [nl],
  [setID 1 (newObject (DictObj emptyDictionary)), setID 2 (newObject (DictObj emptyDictionary))])
  \<and> length (filter indirect twoDictionaries) = 2"
proof -
  note SavePDF_xref_count [OF twoDictionaries_output]
  then have "length (filter indirect twoDictionaries) = 2"
    by (simp add: twoDictionaries_def newObject_def indirect_def isStream_def isDictionary_def
        type_def)
  with twoDictionaries_output show ?thesis by (simp only: simp_thms)
qed

section \<open>The builder keeps its invariants\<close>

lemma buildInvI:
  assumes "\<And>i q. visited c i = Some q \<Longrightarrow> q < length (objectList c)"
    and "\<And>q. q < length (objectList c) \<Longrightarrow> 1 \<le> refCount (objectList c ! q)"
    and "\<And>q. q < length (objectList c) \<Longrightarrow> objID (objectList c ! q) = 0"
    and "\<And>i q s. visited c i = Some q \<Longrightarrow> nameOnly D i s \<Longrightarrow> val (objectList c ! q) = NameObj s"
  shows "buildInv D c"
  using assms unfolding buildInv_def by blast

lemma buildInv_valid: "buildInv D c \<Longrightarrow> visited c i = Some q \<Longrightarrow> q < length (objectList c)"
  unfolding buildInv_def by blast

lemma buildInv_refCount: "buildInv D c \<Longrightarrow> q < length (objectList c) \<Longrightarrow> 1 \<le> refCount (objectList c ! q)"
  unfolding buildInv_def by blast

lemma buildInv_objID: "buildInv D c \<Longrightarrow> q < length (objectList c) \<Longrightarrow> objID (objectList c ! q) = 0"
  unfolding buildInv_def by blast

lemma buildInv_name:
  "buildInv D c \<Longrightarrow> visited c i = Some q \<Longrightarrow> nameOnly D i s \<Longrightarrow> val (objectList c ! q) = NameObj s"
  unfolding buildInv_def by blast

lemma extendsI:
  assumes "length (objectList c) \<le> length (objectList c')"
    and "\<And>q. q < length (objectList c) \<Longrightarrow> val (objectList c' ! q) = val (objectList c ! q)"
    and "\<And>q. q < length (objectList c) \<Longrightarrow> refCount (objectList c ! q) \<le> refCount (objectList c' ! q)"
    and "\<And>i q. visited c i = Some q \<Longrightarrow> visited c' i = Some q"
  shows "extends c c'"
  using assms unfolding extends_def by blast

lemma extends_length: "extends c c' \<Longrightarrow> length (objectList c) \<le> length (objectList c')"
  unfolding extends_def by blast

lemma extends_val:
  "extends c c' \<Longrightarrow> q < length (objectList c) \<Longrightarrow> val (objectList c' ! q) = val (objectList c ! q)"
  unfolding extends_def by blast

lemma extends_refCount:
  "extends c c' \<Longrightarrow> q < length (objectList c) \<Longrightarrow> refCount (objectList c ! q) \<le> refCount (objectList c' ! q)"
  unfolding extends_def by blast

lemma extends_visited: "extends c c' \<Longrightarrow> visited c i = Some q \<Longrightarrow> visited c' i = Some q"
  unfolding extends_def by blast

lemma extends_refl: "extends c c"
  by (rule extendsI) simp_all

lemma extends_trans:
  assumes ab: "extends a b" and bc: "extends b c"
  shows "extends a c"
proof (rule extendsI)
  show "length (objectList a) \<le> length (objectList c)"
    using extends_length[OF ab] extends_length[OF bc] by simp
next
  fix q assume q: "q < length (objectList a)"
  then have qb: "q < length (objectList b)" using extends_length[OF ab] by simp
  show "val (objectList c ! q) = val (objectList a ! q)"
    using extends_val[OF ab q] extends_val[OF bc qb] by simp
  show "refCount (objectList a ! q) \<le> refCount (objectList c ! q)"
    using extends_refCount[OF ab q] extends_refCount[OF bc qb] by simp
next
  fix i q assume "visited a i = Some q"
  then show "visited c i = Some q"
    using extends_visited[OF ab] extends_visited[OF bc] by simp
qed

lemma buildInv_empty: "buildInv D emptyContext"
  by (rule buildInvI) (simp_all add: emptyContext_def)

lemma incAt_inv:
  assumes inv: "buildInv D c" and i: "incAt p c = Inr c'"
  shows "buildInv D c' \<and> extends c c'"
proof -
  from i have p: "p < length (objectList c)"
    and c': "c' = c\<lparr>objectList := (objectList c)[p := inc (objectList c ! p)]\<rparr>"
    by (simp_all add: incAt_def split: if_splits)
  have l: "length (objectList c') = length (objectList c)" and v: "visited c' = visited c"
    using c' by simp_all
  have n: "\<And>q. q < length (objectList c) \<Longrightarrow>
      val (objectList c' ! q) = val (objectList c ! q)
      \<and> objID (objectList c' ! q) = objID (objectList c ! q)
      \<and> refCount (objectList c ! q) \<le> refCount (objectList c' ! q)"
    using c' p by (auto simp: nth_list_update inc_def)
  have "buildInv D c'"
  proof (rule buildInvI)
    fix i q assume "visited c' i = Some q"
    then show "q < length (objectList c')" using buildInv_valid[OF inv, of i q] l v by simp
  next
    fix q assume "q < length (objectList c')"
    then have q: "q < length (objectList c)" using l by simp
    show "1 \<le> refCount (objectList c' ! q)"
      using buildInv_refCount[OF inv q] n[OF q] by simp
    show "objID (objectList c' ! q) = 0"
      using buildInv_objID[OF inv q] n[OF q] by simp
  next
    fix i q s assume a: "visited c' i = Some q" "nameOnly D i s"
    then have "visited c i = Some q" using v by simp
    from buildInv_name[OF inv this a(2)] buildInv_valid[OF inv this] n[of q]
    show "val (objectList c' ! q) = NameObj s" by simp
  qed
  moreover have "extends c c'"
    by (rule extendsI) (simp_all add: l v n)
  ultimately show ?thesis by simp
qed



lemma insertAndPush_inv:
  assumes inv: "buildInv D c" and cr: "\<And>s. nameOnly D i s \<Longrightarrow> v = NameObj s"
  shows "buildInv D (insertAndPush i v c) \<and> extends c (insertAndPush i v c)"
proof -
  let ?c = "insertAndPush i v c"
  have ol: "objectList ?c = objectList c @ [newObject v]"
    by (simp add: insertAndPush_def)
  have old: "\<And>q. q < length (objectList c) \<Longrightarrow> objectList ?c ! q = objectList c ! q"
    by (simp add: ol nth_append)
  have new: "objectList ?c ! length (objectList c) = newObject v"
    by (simp add: ol)
  have vis: "\<And>j q. visited ?c j = Some q \<Longrightarrow>
      visited c j = Some q \<or> (j = i \<and> q = length (objectList c))"
    by (auto simp: insertAndPush_def split: option.splits if_splits)
  have mono: "\<And>j q. visited c j = Some q \<Longrightarrow> visited ?c j = Some q"
    by (auto simp: insertAndPush_def split: option.splits)
  have "buildInv D ?c"
  proof (rule buildInvI)
    fix j q assume "visited ?c j = Some q"
    from vis[OF this] show "q < length (objectList ?c)"
      using buildInv_valid[OF inv, of j q] by (auto simp: ol)
  next
    fix q assume "q < length (objectList ?c)"
    then have "q < length (objectList c) \<or> q = length (objectList c)" by (auto simp: ol)
    then show "1 \<le> refCount (objectList ?c ! q)"
      using buildInv_refCount[OF inv, of q] old[of q] new by (auto simp: newObject_def)
  next
    fix q assume "q < length (objectList ?c)"
    then have "q < length (objectList c) \<or> q = length (objectList c)" by (auto simp: ol)
    then show "objID (objectList ?c ! q) = 0"
      using buildInv_objID[OF inv, of q] old[of q] new by (auto simp: newObject_def)
  next
    fix j q s assume a: "visited ?c j = Some q" "nameOnly D j s"
    from vis[OF a(1)] show "val (objectList ?c ! q) = NameObj s"
    proof
      assume b: "visited c j = Some q"
      from buildInv_name[OF inv b a(2)] buildInv_valid[OF inv b] old[of q]
      show ?thesis by simp
    next
      assume "j = i \<and> q = length (objectList c)"
      with cr[of s] a(2) new show ?thesis by (simp add: newObject_def)
    qed
  qed
  moreover have "extends c ?c"
    by (rule extendsI) (simp_all add: ol nth_append mono)
  ultimately show ?thesis by simp
qed

lemma setVal_inv:
  assumes inv: "buildInv D c" and p: "p < length (objectList c)"
    and c': "c' = c\<lparr>objectList := (objectList c)[p := (objectList c ! p)\<lparr>val := w\<rparr>]\<rparr>"
    and nn: "\<And>s. val (objectList c ! p) \<noteq> NameObj s"
  shows "buildInv D c'"
    and "\<And>c0. extends c0 c \<Longrightarrow> length (objectList c0) \<le> p \<Longrightarrow> extends c0 c'"
proof -
  have l: "length (objectList c') = length (objectList c)" and v: "visited c' = visited c"
    using c' by simp_all
  have same: "\<And>q. q < length (objectList c) \<Longrightarrow>
      refCount (objectList c' ! q) = refCount (objectList c ! q)
      \<and> objID (objectList c' ! q) = objID (objectList c ! q)"
    using c' p by (auto simp: nth_list_update)
  have other: "\<And>q. q \<noteq> p \<Longrightarrow> objectList c' ! q = objectList c ! q"
    using c' by simp
  show "buildInv D c'"
  proof (rule buildInvI)
    fix i q assume "visited c' i = Some q"
    then show "q < length (objectList c')" using buildInv_valid[OF inv, of i q] l v by simp
  next
    fix q assume "q < length (objectList c')"
    then have q: "q < length (objectList c)" using l by simp
    show "1 \<le> refCount (objectList c' ! q)"
      using buildInv_refCount[OF inv q] same[OF q] by simp
    show "objID (objectList c' ! q) = 0"
      using buildInv_objID[OF inv q] same[OF q] by simp
  next
    fix i q s assume a: "visited c' i = Some q" "nameOnly D i s"
    then have b: "visited c i = Some q" using v by simp
    from buildInv_name[OF inv b a(2)] nn[of s] have "q \<noteq> p" by auto
    from other[OF this] buildInv_name[OF inv b a(2)]
    show "val (objectList c' ! q) = NameObj s" by simp
  qed
  fix c0 assume e: "extends c0 c" and le: "length (objectList c0) \<le> p"
  show "extends c0 c'"
  proof (rule extendsI)
    show "length (objectList c0) \<le> length (objectList c')"
      using extends_length[OF e] l by simp
  next
    fix q assume q: "q < length (objectList c0)"
    then have "q \<noteq> p" using le by simp
    from other[OF this] extends_val[OF e q] extends_refCount[OF e q]
    show "val (objectList c' ! q) = val (objectList c0 ! q)"
      and "refCount (objectList c0 ! q) \<le> refCount (objectList c' ! q)" by simp_all
  next
    fix i q assume "visited c0 i = Some q"
    then show "visited c' i = Some q" using extends_visited[OF e] v by simp
  qed
qed

lemma addValueDictAt_Inr:
  "addValueDictAt p k x c = Inr c' \<Longrightarrow>
     p < length (objectList c) \<and> (\<exists>d. val (objectList c ! p) = DictObj d
       \<and> c' = c\<lparr>objectList := (objectList c)[p := (objectList c ! p)\<lparr>val := DictObj (addValue k x d)\<rparr>]\<rparr>)"
  by (auto simp: addValueDictAt_def split: if_splits PDFValue.splits)

lemma addValueArrayAt_Inr:
  "addValueArrayAt p x c = Inr c' \<Longrightarrow>
     p < length (objectList c) \<and> (\<exists>xs. val (objectList c ! p) = ArrayObj xs
       \<and> c' = c\<lparr>objectList := (objectList c)[p := (objectList c ! p)\<lparr>val := ArrayObj (xs @ [x])\<rparr>]\<rparr>)"
  by (auto simp: addValueArrayAt_def split: if_splits PDFValue.splits)

lemma addValueDictAt_inv:
  assumes "buildInv D c" and "addValueDictAt p k x c = Inr c'"
  shows "buildInv D c'"
    and "\<And>c0. extends c0 c \<Longrightarrow> length (objectList c0) \<le> p \<Longrightarrow> extends c0 c'"
proof -
  from addValueDictAt_Inr[OF assms(2)] obtain d where p: "p < length (objectList c)"
    and d: "val (objectList c ! p) = DictObj d"
    and c': "c' = c\<lparr>objectList := (objectList c)[p := (objectList c ! p)\<lparr>val := DictObj (addValue k x d)\<rparr>]\<rparr>"
    by blast
  have nn: "\<And>s. val (objectList c ! p) \<noteq> NameObj s" using d by simp
  show "buildInv D c'" by (rule setVal_inv(1)[OF assms(1) p c' nn])
  fix c0 assume "extends c0 c" "length (objectList c0) \<le> p"
  then show "extends c0 c'" by (rule setVal_inv(2)[OF assms(1) p c' nn])
qed

lemma addValueArrayAt_inv:
  assumes "buildInv D c" and "addValueArrayAt p x c = Inr c'"
  shows "buildInv D c'"
    and "\<And>c0. extends c0 c \<Longrightarrow> length (objectList c0) \<le> p \<Longrightarrow> extends c0 c'"
proof -
  from addValueArrayAt_Inr[OF assms(2)] obtain xs where p: "p < length (objectList c)"
    and d: "val (objectList c ! p) = ArrayObj xs"
    and c': "c' = c\<lparr>objectList := (objectList c)[p := (objectList c ! p)\<lparr>val := ArrayObj (xs @ [x])\<rparr>]\<rparr>"
    by blast
  have nn: "\<And>s. val (objectList c ! p) \<noteq> NameObj s" using d by simp
  show "buildInv D c'" by (rule setVal_inv(1)[OF assms(1) p c' nn])
  fix c0 assume "extends c0 c" "length (objectList c0) \<le> p"
  then show "extends c0 c'" by (rule setVal_inv(2)[OF assms(1) p c' nn])
qed


lemma registerOrInc_inv:
  assumes inv: "buildInv D c" and cr: "\<And>s. nameOnly D i s \<Longrightarrow> V = NameObj s"
    and r: "(case visited c i of Some p \<Rightarrow> incAt p c | None \<Rightarrow> Inr (insertAndPush i V c)) = Inr c'"
  shows "buildInv D c' \<and> extends c c'"
proof (cases "visited c i")
  case None
  with r have "c' = insertAndPush i V c" by simp
  with insertAndPush_inv[OF inv cr] show ?thesis by simp
next
  case (Some p)
  with r have "incAt p c = Inr c'" by simp
  from incAt_inv[OF inv this] show ?thesis .
qed

lemma VisitNull_inv:
  assumes "buildInv D c" and "objectAt D obj = Some CGNull" and "VisitNull D obj c = Inr c'"
  shows "buildInv D c' \<and> extends c c'"
proof (rule registerOrInc_inv[OF assms(1), of obj NullObj])
  show "\<And>s. nameOnly D obj s \<Longrightarrow> NullObj = NameObj s"
    using assms(2) by (simp add: nameOnly_def)
  show "(case visited c obj of Some p \<Rightarrow> incAt p c | None \<Rightarrow> Inr (insertAndPush obj NullObj c)) = Inr c'"
    using assms(2,3) by (simp add: VisitNull_def IDRef_def)
qed

lemma VisitBoolean_inv:
  assumes "buildInv D c" and "objectAt D obj = Some (CGBoolean b)" and "VisitBoolean D obj c = Inr c'"
  shows "buildInv D c' \<and> extends c c'"
proof (rule registerOrInc_inv[OF assms(1), of obj "BooleanObj b"])
  show "\<And>s. nameOnly D obj s \<Longrightarrow> BooleanObj b = NameObj s"
    using assms(2) by (simp add: nameOnly_def)
  show "(case visited c obj of Some p \<Rightarrow> incAt p c
         | None \<Rightarrow> Inr (insertAndPush obj (BooleanObj b) c)) = Inr c'"
    using assms(2,3) by (simp add: VisitBoolean_def IDRef_def split: option.splits)
qed

lemma VisitInteger_inv:
  assumes "buildInv D c" and "objectAt D obj = Some (CGInteger v)" and "VisitInteger D obj c = Inr c'"
  shows "buildInv D c' \<and> extends c c'"
proof (rule registerOrInc_inv[OF assms(1), of obj "NumberObj (IntNumber (sint (word_of_int v :: 32 word)))"])
  show "\<And>s. nameOnly D obj s \<Longrightarrow> NumberObj (IntNumber (sint (word_of_int v :: 32 word))) = NameObj s"
    using assms(2) by (simp add: nameOnly_def)
  show "(case visited c obj of Some p \<Rightarrow> incAt p c
         | None \<Rightarrow> Inr (insertAndPush obj (NumberObj (IntNumber (sint (word_of_int v :: 32 word)))) c)) = Inr c'"
    using assms(2,3) by (simp add: VisitInteger_def IDRef_def split: option.splits)
qed

lemma VisitFloat_inv:
  assumes "buildInv D c" and "objectAt D obj = Some (CGReal v)" and "VisitFloat P D obj c = Inr c'"
  shows "buildInv D c' \<and> extends c c'"
proof (rule registerOrInc_inv[OF assms(1), of obj "NumberObj (FloatNumber (toFloat P v))"])
  show "\<And>s. nameOnly D obj s \<Longrightarrow> NumberObj (FloatNumber (toFloat P v)) = NameObj s"
    using assms(2) by (simp add: nameOnly_def)
  show "(case visited c obj of Some p \<Rightarrow> incAt p c
         | None \<Rightarrow> Inr (insertAndPush obj (NumberObj (FloatNumber (toFloat P v))) c)) = Inr c'"
    using assms(2,3) by (simp add: VisitFloat_def IDRef_def split: option.splits)
qed

lemma VisitName_inv:
  assumes "buildInv D c" and "objectAt D obj = Some (CGName v)" and "VisitName D obj c = Inr c'"
  shows "buildInv D c' \<and> extends c c'"
proof (rule registerOrInc_inv[OF assms(1), of obj "NameObj v"])
  show "\<And>s. nameOnly D obj s \<Longrightarrow> NameObj v = NameObj s"
    using assms(2) by (simp add: nameOnly_def)
  show "(case visited c obj of Some p \<Rightarrow> incAt p c
         | None \<Rightarrow> Inr (insertAndPush obj (NameObj v) c)) = Inr c'"
    using assms(2,3) by (simp add: VisitName_def IDRef_def split: option.splits)
qed

lemma VisitString_inv:
  assumes "buildInv D c" and "objectAt D obj = Some (CGString v)" and "VisitString D obj c = Inr c'"
  shows "buildInv D c' \<and> extends c c'"
proof (rule registerOrInc_inv[OF assms(1), of obj "StringObj v"])
  show "\<And>s. nameOnly D obj s \<Longrightarrow> StringObj v = NameObj s"
    using assms(2) by (simp add: nameOnly_def)
  show "(case visited c obj of Some p \<Rightarrow> incAt p c
         | None \<Rightarrow> Inr (insertAndPush obj (StringObj v) c)) = Inr c'"
    using assms(2,3) by (simp add: VisitString_def IDRef_def split: option.splits)
qed


lemma VisitArray_inv:
  assumes vis: "\<And>obj s s'. buildInv D s \<Longrightarrow> visit obj s = Inr s' \<Longrightarrow> buildInv D s' \<and> extends s s'"
    and inv: "buildInv D c" and r: "VisitArray visit D arr c = Inr c'"
  shows "buildInv D c' \<and> extends c c'"
proof (cases "visited c arr")
  case (Some p)
  with r have "incAt p c = Inr c'" by (simp add: VisitArray_def)
  from incAt_inv[OF inv this] show ?thesis .
next
  case None
  with r obtain elems where el: "arrayAt D arr = Some elems"
    by (cases "arrayAt D arr") (simp_all add: VisitArray_def)
  let ?ptr = "length (objectList c)"
  let ?c1 = "insertAndPush arr (ArrayObj []) c"
  let ?f = "\<lambda>i s. bindE (visit (elems ! i) s) (\<lambda>s'.
                     bindE (findVisited D (elems ! i) s') (\<lambda>found.
                     addValueArrayAt ?ptr found s'))"
  from r None el have loop: "foldE ?f [0..<length elems] ?c1 = Inr c'"
    by (simp add: VisitArray_def Let_def)
  have c1: "buildInv D ?c1 \<and> extends c ?c1"
    by (rule insertAndPush_inv[OF inv]) (simp add: nameOnly_def el)
  have step: "\<And>i s s'. ?f i s = Inr s' \<Longrightarrow> buildInv D s \<and> extends c s
      \<Longrightarrow> buildInv D s' \<and> extends c s'"
  proof -
    fix i s s' assume f: "?f i s = Inr s'" and I: "buildInv D s \<and> extends c s"
    from f obtain s1 found where v: "visit (elems ! i) s = Inr s1"
      and a: "addValueArrayAt ?ptr found s1 = Inr s'"
      by (auto dest!: bindE_Inr)
    from vis[OF _ v] I have s1: "buildInv D s1" "extends s s1" by simp_all
    from extends_trans[OF _ s1(2)] I have e: "extends c s1" by simp
    from addValueArrayAt_inv[OF s1(1) a] e show "buildInv D s' \<and> extends c s'" by simp
  qed
  from foldE_preserves[where I = "\<lambda>s. buildInv D s \<and> extends c s", OF step loop c1]
  show ?thesis .
qed

lemma VisitDict_inv:
  assumes vis: "\<And>obj s s'. buildInv D s \<Longrightarrow> visit obj s = Inr s' \<Longrightarrow> buildInv D s' \<and> extends s s'"
    and inv: "buildInv D c" and r: "VisitDict visit D dict c = Inr (ptr, c')"
  shows "buildInv D c' \<and> extends c c'"
proof (cases "visited c dict")
  case (Some p)
  with r have "incAt p c = Inr c'" by (auto simp: VisitDict_def dest!: bindE_Inr)
  from incAt_inv[OF inv this] show ?thesis .
next
  case None
  with r obtain kvs where el: "dictionaryAt D dict = Some kvs"
    by (cases "dictionaryAt D dict") (simp_all add: VisitDict_def)
  let ?ptr = "length (objectList c)"
  let ?c1 = "insertAndPush dict (DictObj emptyDictionary) c"
  let ?f = "\<lambda>it s. case map_of kvs it of
                          None \<Rightarrow> Inr s
                        | Some v \<Rightarrow>
                            bindE (visit v s) (\<lambda>s'.
                            bindE (findVisited D v s') (\<lambda>found.
                            addValueDictAt ?ptr it found s'))"
  from r None el have loop: "foldE ?f (map fst kvs) ?c1 = Inr c'"
    by (auto simp: VisitDict_def Let_def dest!: bindE_Inr)
  have c1: "buildInv D ?c1 \<and> extends c ?c1"
    by (rule insertAndPush_inv[OF inv]) (simp add: nameOnly_def el)
  have step: "\<And>i s s'. ?f i s = Inr s' \<Longrightarrow> buildInv D s \<and> extends c s
      \<Longrightarrow> buildInv D s' \<and> extends c s'"
  proof -
    fix i s s' assume f: "?f i s = Inr s'" and I: "buildInv D s \<and> extends c s"
    show "buildInv D s' \<and> extends c s'"
    proof (cases "map_of kvs i")
      case None
      with f I show ?thesis by simp
    next
      case (Some v)
      with f obtain s1 found where v: "visit v s = Inr s1"
        and a: "addValueDictAt ?ptr i found s1 = Inr s'"
        by (auto dest!: bindE_Inr)
      from vis[OF _ v] I have s1: "buildInv D s1" "extends s s1" by simp_all
      from extends_trans[OF _ s1(2)] I have e: "extends c s1" by simp
      from addValueDictAt_inv[OF s1(1) a] e show ?thesis by simp
    qed
  qed
  from foldE_preserves[where I = "\<lambda>s. buildInv D s \<and> extends c s", OF step loop c1]
  show ?thesis .
qed

lemma VisitStream_inv:
  assumes vis: "\<And>obj s s'. buildInv D s \<Longrightarrow> visit obj s = Inr s' \<Longrightarrow> buildInv D s' \<and> extends s s'"
    and inv: "buildInv D c" and r: "VisitStream visit D stream c = Inr c'"
  shows "buildInv D c' \<and> extends c c'"
proof (cases "visited c stream")
  case (Some p)
  with r have "incAt p c = Inr c'" by (simp add: VisitStream_def)
  from incAt_inv[OF inv this] show ?thesis .
next
  case None
  with r obtain st where st: "streamAt D stream = Some st"
    by (cases "streamAt D stream") (simp_all add: VisitStream_def)
  with r None obtain kvs where el: "dictionaryAt D (streamDictionary st) = Some kvs"
    by (cases "dictionaryAt D (streamDictionary st)") (simp_all add: VisitStream_def)
  let ?f = "\<lambda>it (s, newDict). case map_of kvs it of
                           None \<Rightarrow> Inr (s, newDict)
                         | Some v \<Rightarrow>
                             bindE (visit v s) (\<lambda>s'.
                             bindE (findVisited D v s') (\<lambda>found.
                             Inr (s', addValue it found newDict)))"
  from r None st el obtain s2 newDict where
    loop: "foldE ?f (map fst kvs) (c, emptyDictionary) = Inr (s2, newDict)"
    and c': "c' = insertAndPush stream
                (StreamObj \<lparr>sdict = newDict, sdata = streamData st,
                            sformat = streamFormat st, outputAsText = False\<rparr>) s2"
    by (auto simp: VisitStream_def dest!: bindE_Inr)
  have step: "\<And>i x x'. ?f i x = Inr x' \<Longrightarrow> buildInv D (fst x) \<and> extends c (fst x)
      \<Longrightarrow> buildInv D (fst x') \<and> extends c (fst x')"
  proof -
    fix i and x x' :: "Context \<times> PDFDictionary"
    assume f: "?f i x = Inr x'" and I: "buildInv D (fst x) \<and> extends c (fst x)"
    obtain s nd where x: "x = (s, nd)" by (cases x)
    show "buildInv D (fst x') \<and> extends c (fst x')"
    proof (cases "map_of kvs i")
      case None
      with f I x show ?thesis by simp
    next
      case (Some v)
      with f x obtain s1 where v: "visit v s = Inr s1" and x': "fst x' = s1"
        by (auto dest!: bindE_Inr)
      from vis[OF _ v] I x have s1: "buildInv D s1" "extends s s1" by simp_all
      from extends_trans[OF _ s1(2)] I x have e: "extends c s1" by simp
      with s1(1) x' show ?thesis by simp
    qed
  qed
  from foldE_preserves[where I = "\<lambda>x. buildInv D (fst x) \<and> extends c (fst x)", OF step loop]
    inv extends_refl[of c]
  have s2: "buildInv D s2" "extends c s2" by simp_all
  have "buildInv D c' \<and> extends s2 c'"
    unfolding c' by (rule insertAndPush_inv[OF s2(1)]) (simp add: nameOnly_def st)
  with extends_trans[OF s2(2)] show ?thesis by simp
qed

lemma VisitObject_inv:
  "buildInv D c \<Longrightarrow> VisitObject n P D obj c = Inr c' \<Longrightarrow> buildInv D c' \<and> extends c c'"
proof (induction n arbitrary: obj c c')
  case 0
  then show ?case by simp
next
  case (Suc n)
  from Suc.prems(2) obtain i where i: "IDRef D obj = Inr i"
    by (auto dest!: bindE_Inr)
  show ?case
  proof (cases "visited c i")
    case (Some p)
    with Suc.prems(2) i have "incAt p c = Inr c'" by simp
    from incAt_inv[OF Suc.prems(1) this] show ?thesis .
  next
    case None
    with i Suc.prems(2) obtain ob where ob: "objectAt D obj = Some ob"
      by (cases "objectAt D obj") simp_all
    note vis = Suc.IH
    show ?thesis
    proof (cases ob)
      case CGNull
      with Suc.prems(2) i None ob have "VisitNull D obj c = Inr c'" by simp
      from VisitNull_inv[OF Suc.prems(1) _ this] ob CGNull show ?thesis by simp
    next
      case (CGBoolean b)
      with Suc.prems(2) i None ob have "VisitBoolean D obj c = Inr c'" by simp
      from VisitBoolean_inv[OF Suc.prems(1) _ this] ob CGBoolean show ?thesis by simp
    next
      case (CGInteger v)
      with Suc.prems(2) i None ob have "VisitInteger D obj c = Inr c'" by simp
      from VisitInteger_inv[OF Suc.prems(1) _ this] ob CGInteger show ?thesis by simp
    next
      case (CGReal v)
      with Suc.prems(2) i None ob have "VisitFloat P D obj c = Inr c'" by simp
      from VisitFloat_inv[OF Suc.prems(1) _ this] ob CGReal show ?thesis by simp
    next
      case (CGName v)
      with Suc.prems(2) i None ob have "VisitName D obj c = Inr c'" by simp
      from VisitName_inv[OF Suc.prems(1) _ this] ob CGName show ?thesis by simp
    next
      case (CGString v)
      with Suc.prems(2) i None ob have "VisitString D obj c = Inr c'" by simp
      from VisitString_inv[OF Suc.prems(1) _ this] ob CGString show ?thesis by simp
    next
      case (CGArray v)
      with Suc.prems(2) i None ob have "VisitArray (VisitObject n P D) D v c = Inr c'" by simp
      from VisitArray_inv[OF vis Suc.prems(1) this] show ?thesis .
    next
      case (CGDictionary v)
      with Suc.prems(2) i None ob obtain p where
        "VisitDict (VisitObject n P D) D v c = Inr (p, c')"
        by (auto dest!: bindE_Inr)
      from VisitDict_inv[OF vis Suc.prems(1) this] show ?thesis .
    next
      case (CGStream v)
      with Suc.prems(2) i None ob have "VisitStream (VisitObject n P D) D v c = Inr c'" by simp
      from VisitStream_inv[OF vis Suc.prems(1) this] show ?thesis .
    qed
  qed
qed



















subsection \<open>Entries that share a child\<close>









































subsection \<open>Counting references\<close>












































text \<open>
  The objects the builder hands to \<open>SavePDF\<close> have no identifier yet, which is what the
  identifier pass of C3 starts from.
\<close>

lemma buildGraph_no_identifiers:
  assumes "buildGraph n P D catalog info = Inr (rootObj, infoObj, ctx)"
  shows "\<forall>q < length (objectList ctx). getID (objectList ctx ! q) = 0"
proof -
  from assms obtain ctx1 ctx2 where
    a: "VisitDict (VisitObject n P D) D catalog emptyContext = Inr (rootObj, ctx1)"
    and b: "VisitDict (VisitObject n P D) D info ctx1 = Inr (infoObj, ctx2)"
    and c: "ctx = ctx2\<lparr>visited := Map.empty\<rparr>"
    by (auto simp: buildGraph_def dest!: bindE_Inr)
  note vis = VisitObject_inv[of D _ n P]
  from VisitDict_inv[OF vis buildInv_empty a] have "buildInv D ctx1" by simp
  from VisitDict_inv[OF vis this b] have "buildInv D ctx2" by simp
  from buildInv_objID[OF this] c show ?thesis by (simp add: getID_def)
qed

end
